theory Spec2Isabelle
  imports Complex_Main
begin

section \<open>Numbers and typed arrays of the JavaScript source\<close>

text \<open>
  The analyzer computes with JavaScript numbers held in \<^verbatim>\<open>Float32Array\<close>s. They are
  modelled as reals, extended by one extra value for \<^verbatim>\<open>NaN\<close>: \<open>None\<close> is
  \<^verbatim>\<open>NaN\<close>, \<open>Some x\<close> is the finite number \<open>x\<close>. The infinities are outside the model.
  \<^verbatim>\<open>NaN\<close> arises in the source from finite data in two ways only, and both are written
  out: reading an array beyond its end (the \<^verbatim>\<open>undefined\<close> that results turns into
  \<^verbatim>\<open>NaN\<close> in arithmetic and when stored into a typed array), and the quotient
  \<^verbatim>\<open>0 / 0\<close>. The operations \<open>jadd\<close>, \<open>jsub\<close>, \<open>jmul\<close> and \<open>jdiv\<close> are exact; the
  operations \<open>fsub\<close>, \<open>fmul\<close> and \<open>fdiv\<close> further below round their result to binary64, as
  JavaScript does, and are the arithmetic of \<^verbatim>\<open>Utils.normalize\<close>.
\<close>

type_synonym jsnum = "real option"

fun jadd :: "jsnum \<Rightarrow> jsnum \<Rightarrow> jsnum" where
  "jadd (Some a) (Some b) = Some (a + b)"
| "jadd _ _ = None"

fun jsub :: "jsnum \<Rightarrow> jsnum \<Rightarrow> jsnum" where
  "jsub (Some a) (Some b) = Some (a - b)"
| "jsub _ _ = None"

fun jmul :: "jsnum \<Rightarrow> jsnum \<Rightarrow> jsnum" where
  "jmul (Some a) (Some b) = Some (a * b)"
| "jmul _ _ = None"

text \<open>
  Division: \<^verbatim>\<open>0 / 0\<close> is \<^verbatim>\<open>NaN\<close>. Every division of the source by a divisor that can
  be zero (a frame count, \<^verbatim>\<open>width * 2\<close>, \<^verbatim>\<open>width * height\<close>) has a dividend that is
  zero whenever the divisor is, so a non-zero number is never divided by zero.
\<close>

fun jdiv :: "jsnum \<Rightarrow> jsnum \<Rightarrow> jsnum" where
  "jdiv (Some a) (Some b) = (if b = 0 then None else Some (a / b))"
| "jdiv _ _ = None"

fun jabs :: "jsnum \<Rightarrow> jsnum" where
  "jabs (Some a) = Some \<bar>a\<bar>"
| "jabs None = None"

fun jsqrt :: "jsnum \<Rightarrow> jsnum" where
  "jsqrt (Some a) = (if a < 0 then None else Some (sqrt a))"
| "jsqrt None = None"

text \<open>Comparisons with \<^verbatim>\<open>NaN\<close> are false.\<close>

fun jgt :: "jsnum \<Rightarrow> jsnum \<Rightarrow> bool" where
  "jgt (Some a) (Some b) = (a > b)"
| "jgt _ _ = False"

fun jlt :: "jsnum \<Rightarrow> jsnum \<Rightarrow> bool" where
  "jlt (Some a) (Some b) = (a < b)"
| "jlt _ _ = False"

text \<open>\<^verbatim>\<open>Math.min\<close> and \<^verbatim>\<open>Math.max\<close> of two numbers: \<^verbatim>\<open>NaN\<close> if either is.\<close>

fun Math_min :: "jsnum \<Rightarrow> jsnum \<Rightarrow> jsnum" where
  "Math_min (Some a) (Some b) = Some (min a b)"
| "Math_min _ _ = None"

fun Math_max :: "jsnum \<Rightarrow> jsnum \<Rightarrow> jsnum" where
  "Math_max (Some a) (Some b) = Some (max a b)"
| "Math_max _ _ = None"

text \<open>
  A typed array is a list. A read beyond the end gives \<^verbatim>\<open>undefined\<close>, which every use
  in the source coerces to \<^verbatim>\<open>NaN\<close>; a write beyond the end is ignored, which is what
  \<open>xs[i := v]\<close> does.
\<close>

definition rd :: "jsnum list \<Rightarrow> nat \<Rightarrow> jsnum" where
  "rd xs i = (if i < length xs then xs ! i else None)"

text \<open>
  Storing into a \<^verbatim>\<open>Uint8ClampedArray\<close>: \<^verbatim>\<open>NaN\<close> becomes 0, the value is clamped to
  \<open>[0, 255]\<close> and rounded to the nearest integer, a tie going to the even neighbour.
\<close>

definition toUint8Clamped :: "jsnum \<Rightarrow> nat" where
  "toUint8Clamped v =
     (case v of
        None \<Rightarrow> 0
      | Some x \<Rightarrow>
          if x \<le> 0 then 0
          else if 255 \<le> x then 255
          else (let f = \<lfloor>x\<rfloor> in
                if of_int f + 1 / 2 < x then nat (f + 1)
                else if x < of_int f + 1 / 2 then nat f
                else if even f then nat f else nat (f + 1)))"

text \<open>
  A read of a \<^verbatim>\<open>Uint8ClampedArray\<close>: \<open>None\<close> is \<^verbatim>\<open>undefined\<close>, for an index
  beyond the end.
\<close>

definition rdU :: "nat list \<Rightarrow> nat \<Rightarrow> nat option" where
  "rdU xs i = (if i < length xs then Some (xs ! i) else None)"

definition num :: "nat option \<Rightarrow> jsnum" where
  "num v = map_option real v"

section \<open>Rounding to binary64\<close>

text \<open>The power \<open>2\<^sup>e\<close> for an integer \<open>e\<close> of either sign.\<close>

definition pow2 :: "int \<Rightarrow> real" where
  "pow2 e = (if 0 \<le> e then 2 ^ nat e else 1 / 2 ^ nat (- e))"

text \<open>Rounding to the nearest integer, a tie going to the even neighbour.\<close>

definition roundHalfEven :: "real \<Rightarrow> int" where
  "roundHalfEven x =
     (let f = \<lfloor>x\<rfloor>
      in if of_int f + 1 / 2 < x then f + 1
         else if x < of_int f + 1 / 2 then f
         else if even f then f else f + 1)"

text \<open>
  The binary64 number nearest to \<open>x\<close>, a tie going to the even significand: \<open>x\<close> is
  scaled so that it lies between \<open>2\<^sup>5\<^sup>2\<close> and \<open>2\<^sup>5\<^sup>3\<close>, rounded to an integer and scaled
  back, which keeps 53 significant bits. The exponent is not bounded: the elements of a
  \<^verbatim>\<open>Float32Array\<close> lie between \<open>2\<^sup>-\<^sup>1\<^sup>4\<^sup>9\<close> and \<open>2\<^sup>1\<^sup>2\<^sup>8\<close> in absolute value, or are 0, so
  that the differences, quotients and products of \<^verbatim>\<open>Utils.normalize\<close> neither overflow
  nor reach the subnormal range of binary64.
\<close>

definition b64 :: "real \<Rightarrow> real" where
  "b64 x =
     (if x = 0 then 0
      else (let e = \<lfloor>log 2 \<bar>x\<bar>\<rfloor> - 52
            in of_int (roundHalfEven (x / pow2 e)) * pow2 e))"

text \<open>Subtraction, multiplication and division as JavaScript computes them.\<close>

definition fsub :: "jsnum \<Rightarrow> jsnum \<Rightarrow> jsnum" where
  "fsub a b = map_option b64 (jsub a b)"

definition fmul :: "jsnum \<Rightarrow> jsnum \<Rightarrow> jsnum" where
  "fmul a b = map_option b64 (jmul a b)"

definition fdiv :: "jsnum \<Rightarrow> jsnum \<Rightarrow> jsnum" where
  "fdiv a b = map_option b64 (jdiv a b)"

section \<open>Utils.normalize\<close>

text \<open>
  The value \<^verbatim>\<open>range > 0 ? ((data[i] - min) / range) * 255 : 0\<close> that the loop computes
  for the element \<open>v\<close>, before it is stored into the \<^verbatim>\<open>Uint8ClampedArray\<close>; \<open>rng\<close>
  is the source's \<^verbatim>\<open>range\<close>.
\<close>

definition normalizeValue :: "jsnum \<Rightarrow> jsnum \<Rightarrow> jsnum \<Rightarrow> jsnum" where
  "normalizeValue mn rng v =
     (if jgt rng (Some 0) then fmul (fdiv (fsub v mn) rng) (Some 255) else Some 0)"

text \<open>
  \<^verbatim>\<open>Math.min(...data)\<close> and \<^verbatim>\<open>Math.max(...data)\<close> fold the binary operation over the
  array. For the empty array they are the infinities, which no element is ever compared
  with, since the loop body does not run: the empty array is its own case. The values of
  the loop, in the order of the elements:
\<close>

definition normalizeValues :: "jsnum list \<Rightarrow> jsnum list" where
  "normalizeValues data =
     (case data of
        [] \<Rightarrow> []
      | d # ds \<Rightarrow>
          (let mn = fold Math_min ds d;
               mx = fold Math_max ds d;
               range = fsub mx mn
           in map (normalizeValue mn range) data))"

text \<open>The array returned: each value stored into the \<^verbatim>\<open>Uint8ClampedArray\<close>.\<close>

definition normalize :: "jsnum list \<Rightarrow> nat list" where
  "normalize data = map toUint8Clamped (normalizeValues data)"

section \<open>Utils.fftShift\<close>

definition fftShift :: "jsnum list \<Rightarrow> nat \<Rightarrow> nat \<Rightarrow> jsnum list" where
  "fftShift data width height =
     (let halfWidth = width div 2;
          halfHeight = height div 2
      in fold (\<lambda>y shifted.
           fold (\<lambda>x shifted.
             (let newX = (x + halfWidth) mod width;
                  newY = (y + halfHeight) mod height
              in shifted[newY * width + newX := rd data (y * width + x)]))
             [0..<width] shifted)
           [0..<height] (replicate (length data) (Some 0)))"

section \<open>FFTAnalyzer.analyzeFFTPattern\<close>

record patterns =
  gridPattern :: jsnum
  brightDots :: jsnum
  crossShape :: jsnum
  checkerboard :: jsnum
  smoothGradient :: jsnum

text \<open>The indices \<open>start, start + 16, ...\<close> below \<open>stop\<close>, in the order the loop visits them.\<close>

function stride16 :: "nat \<Rightarrow> nat \<Rightarrow> nat list" where
  "stride16 i stop = (if i < stop then i # stride16 (i + 16) stop else [])"
  by pat_completeness auto
termination
  by (relation "measure (\<lambda>(i, stop). stop - i)") auto

declare stride16.simps [simp del]

text \<open>A comparison \<^verbatim>\<open>normalized[idx] > t\<close>; it is false for \<^verbatim>\<open>undefined\<close>.\<close>

definition above :: "nat option \<Rightarrow> nat \<Rightarrow> bool" where
  "above v t = (case v of None \<Rightarrow> False | Some a \<Rightarrow> t < a)"

text \<open>\<^verbatim>\<open>Math.abs(a - b)\<close> for two array reads.\<close>

definition absdiff :: "nat option \<Rightarrow> nat option \<Rightarrow> jsnum" where
  "absdiff a b = jabs (jsub (num a) (num b))"

text \<open>A counting loop body: \<^verbatim>\<open>if (c) count++\<close>.\<close>

definition tick :: "bool \<Rightarrow> nat \<Rightarrow> nat" where
  "tick c count = (if c then Suc count else count)"

definition gridCount :: "nat list \<Rightarrow> nat \<Rightarrow> nat \<Rightarrow> nat" where
  "gridCount normalized width height =
     fold (\<lambda>y count.
       fold (\<lambda>x count. tick (above (rdU normalized (y * width + x)) 200) count)
         (stride16 16 width) count)
       (stride16 16 height) 0"

definition brightCount :: "nat list \<Rightarrow> nat" where
  "brightCount normalized =
     fold (\<lambda>i count. tick (above (rdU normalized i) 240) count) [0..<length normalized] 0"

definition crossCount :: "nat list \<Rightarrow> nat \<Rightarrow> nat \<Rightarrow> nat" where
  "crossCount normalized width height =
     fold (\<lambda>i count.
       tick (above (rdU normalized (i * width + width div 2)) 180)
         (tick (above (rdU normalized ((height div 2) * width + i)) 180) count))
       [0..<width] 0"

text \<open>The test of the checkerboard loop at row \<open>y\<close>, column \<open>x\<close>.\<close>

definition checkerAt :: "nat list \<Rightarrow> nat \<Rightarrow> nat \<Rightarrow> nat \<Rightarrow> bool" where
  "checkerAt normalized width y x =
     (let current = rdU normalized (y * width + x);
          right = rdU normalized (y * width + (x + 1));
          down = rdU normalized ((y + 1) * width + x)
      in jgt (absdiff current right) (Some 100) \<or> jgt (absdiff current down) (Some 100))"

definition checkerCount :: "nat list \<Rightarrow> nat \<Rightarrow> nat \<Rightarrow> nat" where
  "checkerCount normalized width height =
     fold (\<lambda>y count.
       fold (\<lambda>x count. tick (checkerAt normalized width y x) count)
         [0..<width - 1] count)
       [0..<height - 1] 0"

text \<open>The test of the smooth-gradient loop at row \<open>y\<close>, column \<open>x\<close>.\<close>

definition smoothAt :: "nat list \<Rightarrow> nat \<Rightarrow> nat \<Rightarrow> nat \<Rightarrow> bool" where
  "smoothAt normalized width y x =
     (let current = rdU normalized (y * width + x);
          neighbors = [rdU normalized ((y - 1) * width + x),
                       rdU normalized ((y + 1) * width + x),
                       rdU normalized (y * width + (x - 1)),
                       rdU normalized (y * width + (x + 1))];
          avgDiff = jdiv (fold (\<lambda>n sum. jadd sum (absdiff current n)) neighbors (Some 0))
                         (Some 4)
      in jlt avgDiff (Some 30))"

definition gradientSmooth :: "nat list \<Rightarrow> nat \<Rightarrow> nat \<Rightarrow> nat" where
  "gradientSmooth normalized width height =
     fold (\<lambda>y count.
       fold (\<lambda>x count. tick (smoothAt normalized width y x) count)
         [1..<width - 1] count)
       [1..<height - 1] 0"

definition analyzeFFTPattern :: "jsnum list \<Rightarrow> nat \<Rightarrow> nat \<Rightarrow> patterns" where
  "analyzeFFTPattern magnitude width height =
     (let normalized = normalize magnitude
      in \<lparr> gridPattern =
             Math_min (jdiv (Some (real (gridCount normalized width height))) (Some 100)) (Some 1),
           brightDots =
             Math_min (jdiv (Some (real (brightCount normalized))) (Some 500)) (Some 1),
           crossShape =
             Math_min (jdiv (Some (real (crossCount normalized width height)))
                            (Some (real (width * 2)))) (Some 1),
           checkerboard =
             Math_min (jdiv (Some (real (checkerCount normalized width height)))
                            (Some (real (width * height)))) (Some 1),
           smoothGradient =
             jdiv (Some (real (gradientSmooth normalized width height)))
                  (Some (real (width * height))) \<rparr>)"

section \<open>FFTAnalyzer.detectAIPatterns\<close>

record fftData =
  magnitude :: "jsnum list"
  width :: nat
  height :: nat

record detection =
  isAI :: bool
  confidence :: jsnum
  patterns :: patterns
  details :: "string list"

text \<open>The loop over the frames' spectra, adding each frame's scores to the running sums.\<close>

definition accumulate :: "fftData list \<Rightarrow> patterns" where
  "accumulate fftResults =
     fold (\<lambda>fftData p.
       (let analysis = analyzeFFTPattern (magnitude fftData) (width fftData) (height fftData)
        in \<lparr> gridPattern = jadd (gridPattern p) (gridPattern analysis),
             brightDots = jadd (brightDots p) (brightDots analysis),
             crossShape = jadd (crossShape p) (crossShape analysis),
             checkerboard = jadd (checkerboard p) (checkerboard analysis),
             smoothGradient = jadd (smoothGradient p) (smoothGradient analysis) \<rparr>))
       fftResults
       \<lparr> gridPattern = Some 0, brightDots = Some 0, crossShape = Some 0,
         checkerboard = Some 0, smoothGradient = Some 0 \<rparr>"

text \<open>\<^verbatim>\<open>patterns[key] /= numFrames\<close> for every key; with no frame it is \<^verbatim>\<open>0 / 0\<close>.\<close>

definition average :: "patterns \<Rightarrow> nat \<Rightarrow> patterns" where
  "average p numFrames =
     \<lparr> gridPattern = jdiv (gridPattern p) (Some (real numFrames)),
       brightDots = jdiv (brightDots p) (Some (real numFrames)),
       crossShape = jdiv (crossShape p) (Some (real numFrames)),
       checkerboard = jdiv (checkerboard p) (Some (real numFrames)),
       smoothGradient = jdiv (smoothGradient p) (Some (real numFrames)) \<rparr>"

text \<open>
  The second half of \<^verbatim>\<open>detectAIPatterns\<close>, from the comment
  \<^verbatim>\<open>// Calculate AI likelihood\<close> on: the decision on the averaged scores.
\<close>

definition decide :: "patterns \<Rightarrow> detection" where
  "decide p =
     (let aiScore =
            jadd (jadd (jadd (jmul (gridPattern p) (Some (3 / 10)))
                             (jmul (brightDots p) (Some (25 / 100))))
                       (jmul (crossShape p) (Some (25 / 100))))
                 (jmul (checkerboard p) (Some (2 / 10)));
          realScore = smoothGradient p;
          isAI = jgt aiScore realScore;
          confidence = Math_min (jmul (jabs (jsub aiScore realScore)) (Some 100)) (Some 99);
          details =
            (if isAI then
               (if jgt (gridPattern p) (Some (5 / 10))
                then [''Strong grid pattern detected - characteristic of CNN upsampling'']
                else []) @
               (if jgt (brightDots p) (Some (5 / 10))
                then [''Regular bright dots found - indicates periodic artifacts'']
                else []) @
               (if jgt (crossShape p) (Some (5 / 10))
                then [''Cross/plus shape pattern - common in GAN-generated content'']
                else []) @
               (if jgt (checkerboard p) (Some (4 / 10))
                then [''Checkerboard effect visible - typical of diffusion models'']
                else [])
             else [''Smooth, natural frequency distribution detected'',
                   ''No geometric patterns or regular artifacts found'',
                   ''Frequency spectrum matches real camera footage''])
      in \<lparr> isAI = isAI, confidence = confidence, patterns = p, details = details \<rparr>)"

definition detectAIPatterns :: "fftData list \<Rightarrow> detection" where
  "detectAIPatterns fftResults = decide (average (accumulate fftResults) (length fftResults))"

section \<open>FFTAnalyzer.extractFrames and FFTAnalyzer.analyzeVideo\<close>

text \<open>
  What a run does to its collaborators is a trace of events: a seek of the video to a time,
  and a call of the progress callback with a value. The video is its duration and the
  frame it shows after a seek (\<^verbatim>\<open>seekAndExtract\<close>, a capture from a canvas). The callback
  may be absent (\<^verbatim>\<open>null\<close>). Neither the trace nor the number of frames depends on what
  \<^verbatim>\<open>computeFFT\<close> makes of a frame, so the frame type is left open and \<^verbatim>\<open>computeFFT\<close>
  is a parameter.
\<close>

datatype event = Seek real | Progress real

definition extractFrames ::
  "(real \<Rightarrow> 'frame) \<Rightarrow> real \<Rightarrow> nat \<Rightarrow> bool \<Rightarrow> 'frame list \<times> event list" where
  "extractFrames seekAndExtract duration numFrames progressCallback =
     (let interval = duration / (real numFrames + 1)
      in fold (\<lambda>i (frames, trace).
           (let time = interval * real i;
                frameData = seekAndExtract time
            in (frames @ [frameData],
                trace @ [Seek time] @
                  (if progressCallback then [Progress (real i / real numFrames * 50)] else []))))
           [1..<Suc numFrames] ([], []))"

record 'fft analysisResult =
  isAIGenerated :: bool
  resultConfidence :: jsnum
  resultPatterns :: patterns
  firstFFT :: "'fft option"
  resultDetails :: "string list"

definition analyzeVideo ::
  "(real \<Rightarrow> 'frame) \<Rightarrow> ('frame \<Rightarrow> fftData) \<Rightarrow> real \<Rightarrow> nat \<Rightarrow> bool
     \<Rightarrow> fftData analysisResult \<times> event list" where
  "analyzeVideo seekAndExtract computeFFT duration sampleFrames progressCallback =
     (let (frames, trace0) = extractFrames seekAndExtract duration sampleFrames progressCallback;
          (fftResults, trace1) =
            fold (\<lambda>i (fftResults, trace).
              (fftResults @ [computeFFT (frames ! i)],
               trace @ (if progressCallback
                        then [Progress ((real i + 1) / real (length frames) * 100)] else [])))
              [0..<length frames] ([], trace0);
          analysis = detectAIPatterns fftResults
      in (\<lparr> isAIGenerated = isAI analysis,
            resultConfidence = confidence analysis,
            resultPatterns = patterns analysis,
            firstFFT = (case fftResults of [] \<Rightarrow> None | f # _ \<Rightarrow> Some f),
            resultDetails = details analysis \<rparr>,
          trace1))"

text \<open>The values the progress callback received, and the times sought, in order.\<close>

fun progressValues :: "event list \<Rightarrow> real list" where
  "progressValues [] = []"
| "progressValues (Progress v # es) = v # progressValues es"
| "progressValues (Seek t # es) = progressValues es"

fun seekTimes :: "event list \<Rightarrow> real list" where
  "seekTimes [] = []"
| "seekTimes (Seek t # es) = t # seekTimes es"
| "seekTimes (Progress v # es) = seekTimes es"

section \<open>FFTAnalyzer.fft1D\<close>

text \<open>
  The loop variables of \<^verbatim>\<open>fft1D\<close> are integers held in JavaScript numbers. Addition,
  subtraction and comparison are exact on them; the shifts \<^verbatim>\<open>>> 1\<close> and \<^verbatim>\<open><<= 1\<close>
  first reduce their operand to a signed 32-bit integer and return one.
\<close>

definition toInt32 :: "int \<Rightarrow> int" where
  "toInt32 x = (x + 2 ^ 31) mod 2 ^ 32 - 2 ^ 31"

definition shr1 :: "int \<Rightarrow> int" where
  "shr1 x = toInt32 x div 2"

definition shl1 :: "int \<Rightarrow> int" where
  "shl1 x = toInt32 (toInt32 x * 2)"

text \<open>Reads and writes of a \<^verbatim>\<open>Float32Array\<close> at an integer index.\<close>

definition rdI :: "jsnum list \<Rightarrow> int \<Rightarrow> jsnum" where
  "rdI xs i = (if 0 \<le> i \<and> i < int (length xs) then xs ! nat i else None)"

definition wrI :: "jsnum list \<Rightarrow> int \<Rightarrow> jsnum \<Rightarrow> jsnum list" where
  "wrI xs i v = (if 0 \<le> i \<and> i < int (length xs) then xs[nat i := v] else xs)"

text \<open>
  The destructuring swap \<^verbatim>\<open>[a[i], a[j]] = [a[j], a[i]]\<close>: both elements are read, then
  \<^verbatim>\<open>a[i]\<close> and \<^verbatim>\<open>a[j]\<close> are written, in this order.
\<close>

definition swap :: "jsnum list \<Rightarrow> int \<Rightarrow> int \<Rightarrow> jsnum list" where
  "swap a i j = wrI (wrI a i (rdI a j)) j (rdI a i)"

text \<open>
  The loop \<^verbatim>\<open>while (k <= j) { j -= k; k >>= 1; }\<close>. It does not end once \<open>k\<close> is 0 and
  \<open>j\<close> is not negative: not returning is the value \<open>None\<close>.
\<close>

partial_function (option) bitrev_while :: "int \<Rightarrow> int \<Rightarrow> (int \<times> int) option" where
  "bitrev_while k j = (if k \<le> j then bitrev_while (shr1 k) (j - k) else Some (k, j))"

text \<open>The bit-reversal loop \<^verbatim>\<open>for (let i = 0; i < n - 1; i++)\<close>, from \<open>i\<close> on.\<close>

function bitrev_for ::
  "int \<Rightarrow> int \<Rightarrow> int \<Rightarrow> jsnum list \<times> jsnum list \<Rightarrow> (jsnum list \<times> jsnum list) option" where
  "bitrev_for n i j (re, im) =
     (if i < n - 1 then
        (let (re', im') = (if i < j then (swap re i j, swap im i j) else (re, im))
         in case bitrev_while (shr1 n) j of
              None \<Rightarrow> None
            | Some (k, j') \<Rightarrow> bitrev_for n (i + 1) (j' + k) (re', im'))
      else Some (re, im))"
  by pat_completeness auto
termination
  by (relation "measure (\<lambda>(n, i, j, st). nat (n - 1 - i))") auto

declare bitrev_for.simps [simp del]

text \<open>
  The innermost loop \<^verbatim>\<open>for (let j = 0; j < halfLen; j++)\<close> of the butterflies of one
  block, from \<open>j\<close> on. \<open>cosA\<close> and \<open>sinA\<close> are \<^verbatim>\<open>Math.cos(angle)\<close> and
  \<^verbatim>\<open>Math.sin(angle)\<close>.
\<close>

function butterflies ::
  "int \<Rightarrow> int \<Rightarrow> jsnum \<Rightarrow> jsnum \<Rightarrow> int \<Rightarrow> jsnum \<Rightarrow> jsnum \<Rightarrow> jsnum list \<times> jsnum list
     \<Rightarrow> jsnum list \<times> jsnum list" where
  "butterflies i halfLen cosA sinA j wReal wImag (re, im) =
     (if j < halfLen then
        (let evenIdx = i + j;
             oddIdx = i + j + halfLen;
             tReal = jsub (jmul wReal (rdI re oddIdx)) (jmul wImag (rdI im oddIdx));
             tImag = jadd (jmul wReal (rdI im oddIdx)) (jmul wImag (rdI re oddIdx));
             re1 = wrI re oddIdx (jsub (rdI re evenIdx) tReal);
             im1 = wrI im oddIdx (jsub (rdI im evenIdx) tImag);
             re2 = wrI re1 evenIdx (jadd (rdI re1 evenIdx) tReal);
             im2 = wrI im1 evenIdx (jadd (rdI im1 evenIdx) tImag);
             nextWReal = jsub (jmul wReal cosA) (jmul wImag sinA);
             nextWImag = jadd (jmul wReal sinA) (jmul wImag cosA)
         in butterflies i halfLen cosA sinA (j + 1) nextWReal nextWImag (re2, im2))
      else (re, im))"
  by pat_completeness auto
termination
  by (relation "measure (\<lambda>(i, halfLen, cosA, sinA, j, wReal, wImag, st). nat (halfLen - j))") auto

declare butterflies.simps [simp del]

text \<open>
  The loop over the blocks \<^verbatim>\<open>for (let i = 0; i < n; i += len)\<close>, from \<open>i\<close> on. It does
  not end when \<open>len\<close> is not positive.
\<close>

partial_function (option) blocks ::
  "int \<Rightarrow> int \<Rightarrow> int \<Rightarrow> jsnum \<Rightarrow> jsnum \<Rightarrow> int \<Rightarrow> jsnum list \<times> jsnum list
     \<Rightarrow> (jsnum list \<times> jsnum list) option" where
  "blocks n len halfLen cosA sinA i st =
     (if i < n
      then blocks n len halfLen cosA sinA (i + len)
             (butterflies i halfLen cosA sinA 0 (Some 1) (Some 0) st)
      else Some st)"

text \<open>
  \<^verbatim>\<open>Math.cos\<close> and \<^verbatim>\<open>Math.sin\<close> of \<^verbatim>\<open>angle = -2 * Math.PI / len\<close>. For \<open>len = 0\<close>
  the angle is infinite and both are \<^verbatim>\<open>NaN\<close>.
\<close>

definition cosAngle :: "int \<Rightarrow> jsnum" where
  "cosAngle len = (if len = 0 then None else Some (cos (- 2 * pi / real_of_int len)))"

definition sinAngle :: "int \<Rightarrow> jsnum" where
  "sinAngle len = (if len = 0 then None else Some (sin (- 2 * pi / real_of_int len)))"

text \<open>The loop over the stages \<^verbatim>\<open>for (let len = 2; len <= n; len <<= 1)\<close>, from \<open>len\<close> on.\<close>

partial_function (option) stages ::
  "int \<Rightarrow> int \<Rightarrow> jsnum list \<times> jsnum list \<Rightarrow> (jsnum list \<times> jsnum list) option" where
  "stages n len st =
     (if len \<le> n
      then Option.bind (blocks n len (shr1 len) (cosAngle len) (sinAngle len) 0 st)
             (stages n (shl1 len))
      else Some st)"

text \<open>
  The source has no \<^verbatim>\<open>throw\<close>, and none of its operations raises: a call returns the two
  arrays (\<open>Inr\<close>), or does not return (\<open>None\<close>). The error kinds are those the
  specification names; \<open>Inl\<close> would be a call that fails with one.
\<close>

datatype error = InvalidLength | FrameUnavailable

definition fft1D ::
  "jsnum list \<Rightarrow> jsnum list \<Rightarrow> (error + jsnum list \<times> jsnum list) option" where
  "fft1D re im =
     (let n = int (length re)
      in if n \<le> 1 then Some (Inr (re, im))
         else map_option Inr (Option.bind (bitrev_for n 0 0 (re, im)) (stages n 2)))"

section \<open>Utils.calculateMagnitude\<close>

definition calculateMagnitude :: "jsnum list \<Rightarrow> jsnum list \<Rightarrow> jsnum list" where
  "calculateMagnitude re im =
     map (\<lambda>i. jsqrt (jadd (jmul (rd re i) (rd re i)) (jmul (rd im i) (rd im i))))
       [0..<length re]"

section \<open>Auxiliary notions of the proofs\<close>

text \<open>Where \<^verbatim>\<open>fftShift\<close> writes the element it reads at row \<open>y\<close>, column \<open>x\<close>.\<close>

definition shiftIdx :: "nat \<Rightarrow> nat \<Rightarrow> nat \<times> nat \<Rightarrow> nat" where
  "shiftIdx w h = (\<lambda>(y, x). ((y + h div 2) mod h) * w + (x + w div 2) mod w)"


text \<open>
  The count of the checkerboard score as the specification words it, for comparison with
  \<open>checkerCount\<close>: the number of adjacent-pixel pairs, a pixel and its right neighbour or a
  pixel and its down neighbour, whose absolute difference exceeds 100. Each pair counts
  once, so a pixel whose right and down differences both exceed 100 contributes two.
\<close>

definition checkerPairs_spec :: "nat list \<Rightarrow> nat \<Rightarrow> nat \<Rightarrow> nat" where
  "checkerPairs_spec normalized w h =
     length (filter (\<lambda>(y, x). 100 < \<bar>real (normalized ! (y * w + x)) - real (normalized ! (y * w + (x + 1)))\<bar>)
               (List.product [0..<h] [0..<w - 1]))
     + length (filter (\<lambda>(y, x). 100 < \<bar>real (normalized ! (y * w + x)) - real (normalized ! ((y + 1) * w + x))\<bar>)
               (List.product [0..<h - 1] [0..<w]))"

text \<open>The reversal of the lowest \<open>m\<close> bits of \<open>i\<close>.\<close>

fun bitrev :: "nat \<Rightarrow> nat \<Rightarrow> nat" where
  "bitrev 0 i = 0"
| "bitrev (Suc m) i = 2 ^ m * (i mod 2) + bitrev m (i div 2)"

text \<open>The array of \<open>n\<close> numbers whose first \<open>a\<close> are 1 and whose others are 0.\<close>

definition ones :: "nat \<Rightarrow> nat \<Rightarrow> jsnum list" where
  "ones a n = map (\<lambda>i. Some (if i < a then 1 else 0)) [0..<n]"
section \<open>The trace of a run: seeks and progress reports\<close>

lemma seekTimes_append: "seekTimes (xs @ ys) = seekTimes xs @ seekTimes ys"
  by (induction xs rule: seekTimes.induct) auto

lemma progressValues_append: "progressValues (xs @ ys) = progressValues xs @ progressValues ys"
  by (induction xs rule: progressValues.induct) auto

text \<open>The extraction loop, started at any index with any frames and trace so far.\<close>

lemma extract_loop:
  "fold (\<lambda>i (frames, trace).
           (let time = iv * real i;
                frameData = sk time
            in (frames @ [frameData],
                trace @ [Seek time] @
                  (if cb then [Progress (real i / N * 50)] else []))))
           [a..<a + n] (fs, tr)
   = (fs @ map (\<lambda>i. sk (iv * real i)) [a..<a + n],
      tr @ concat (map (\<lambda>i. Seek (iv * real i) #
                            (if cb then [Progress (real i / N * 50)] else [])) [a..<a + n]))"
proof (induction n arbitrary: fs tr)
  case 0
  then show ?case by simp
next
  case (Suc n)
  have "[a..<a + Suc n] = [a..<a + n] @ [a + n]" by simp
  then show ?case using Suc by (simp add: Let_def)
qed

lemma extractFrames_eq:
  "extractFrames sk D N cb =
    (map (\<lambda>i. sk (D / (real N + 1) * real i)) [1..<Suc N],
     concat (map (\<lambda>i. Seek (D / (real N + 1) * real i) #
                       (if cb then [Progress (real i / real N * 50)] else [])) [1..<Suc N]))"
  using extract_loop[of "D / (real N + 1)" sk cb "real N" 1 N "[]" "[]"]
  by (simp add: extractFrames_def)

lemma seekTimes_concat:
  "seekTimes (concat (map (\<lambda>i. Seek (f i) # (if cb then [Progress (g i)] else [])) xs))
     = map f xs"
  by (induction xs) auto

lemma progressValues_concat:
  "progressValues (concat (map (\<lambda>i. Seek (f i) # (if cb then [Progress (g i)] else [])) xs))
     = (if cb then map g xs else [])"
  by (induction xs) auto

lemma fft_loop:
  "fold (\<lambda>i (fftResults, trace).
              (fftResults @ [cf (frames ! i)],
               trace @ (if cb then [Progress ((real i + 1) / L * 100)] else [])))
        [0..<n] (rs, tr)
   = (rs @ map (\<lambda>i. cf (frames ! i)) [0..<n],
      tr @ (if cb then map (\<lambda>i. Progress ((real i + 1) / L * 100)) [0..<n] else []))"
  by (induction n arbitrary: rs tr) auto

lemma progressValues_map_Progress: "progressValues (map (\<lambda>i. Progress (g i)) xs) = map g xs"
  by (induction xs) auto

lemma analyzeVideo_trace:
  "snd (analyzeVideo sk cf D N cb) =
     concat (map (\<lambda>i. Seek (D / (real N + 1) * real i) #
                       (if cb then [Progress (real i / real N * 50)] else [])) [1..<Suc N])
     @ (if cb then map (\<lambda>i. Progress ((real i + 1) / real N * 100)) [0..<N] else [])"
  by (simp add: analyzeVideo_def extractFrames_eq fft_loop Let_def del: upt_Suc)

text \<open>
  Claim C6. For every frame count \<open>N\<close> and duration \<open>D\<close>, \<^verbatim>\<open>extractFrames\<close> seeks the video
  exactly \<open>N\<close> times, to the times \<open>D \<cdot> i / (N + 1)\<close> for \<open>i = 1, \<dots>, N\<close> in this order,
  and returns \<open>N\<close> frames; for \<open>N = 5\<close> and \<open>D = 10\<close> the times are
  \<open>10/6, 20/6, 30/6, 40/6, 50/6\<close>.
\<close>

theorem extractFrames_timestamps:
  "seekTimes (snd (extractFrames sk D N cb)) = map (\<lambda>i. D * real i / (real N + 1)) [1..<Suc N]
   \<and> length (seekTimes (snd (extractFrames sk D N cb))) = N
   \<and> length (fst (extractFrames sk D N cb)) = N
   \<and> seekTimes (snd (extractFrames sk 10 5 cb)) = [10 / 6, 20 / 6, 30 / 6, 40 / 6, 50 / 6]"
  apply (simp add: extractFrames_eq seekTimes_concat)
  apply (simp add: upt_conv_Cons)
  done

text \<open>
  Claim C2, at the analyzer's own frame count \<open>N = 5\<close>. The progress callback receives
  \<open>10, 20, 30, 40, 50\<close> from the extraction of the frames and then \<open>20, 40, 60, 80, 100\<close>
  from the loop over the frames: the sequence falls from 50 to 20, and the reports 20 and 40
  of the second loop are not above 50.
\<close>

theorem analyzeVideo_progress_five:
  "progressValues (snd (analyzeVideo sk cf D 5 True)) = [10, 20, 30, 40, 50, 20, 40, 60, 80, 100]
   \<and> \<not> sorted (progressValues (snd (analyzeVideo sk cf D 5 True)))"
  apply (simp add: analyzeVideo_trace progressValues_append progressValues_concat
      progressValues_map_Progress del: upt_Suc)
  apply (simp add: upt_conv_Cons)
  done

section \<open>Properties of the rounding to binary64\<close>

lemma pow2_powr: "pow2 e = 2 powr (of_int e)"
proof (cases "0 \<le> e")
  case True
  then have "2 powr (of_int e) = (2::real) powr (real (nat e))" by simp
  also have "\<dots> = 2 ^ nat e" by (simp add: powr_realpow)
  finally show ?thesis using True by (simp add: pow2_def)
next
  case False
  then have "(2::real) powr (of_int e) = 2 powr (- real (nat (- e)))" by simp
  also have "\<dots> = 1 / 2 ^ nat (- e)" by (simp add: powr_minus powr_realpow divide_inverse)
  finally show ?thesis using False by (simp add: pow2_def)
qed

lemma pow2_pos: "0 < pow2 e"
  by (simp add: pow2_powr)

lemma pow2_add: "pow2 (a + b) = pow2 a * pow2 b"
  by (simp add: pow2_powr powr_add)

lemma pow2_mono: "a \<le> b \<Longrightarrow> pow2 a \<le> pow2 b"
  by (simp add: pow2_powr)

lemma pow2_0: "pow2 0 = 1"
  by (simp add: pow2_def)

lemma floor_log_bounds:
  assumes "x \<noteq> 0"
  shows "pow2 \<lfloor>log 2 \<bar>x\<bar>\<rfloor> \<le> \<bar>x\<bar>" "\<bar>x\<bar> < pow2 (\<lfloor>log 2 \<bar>x\<bar>\<rfloor> + 1)"
proof -
  have pos: "0 < \<bar>x\<bar>" using assms by simp
  have two: "(1::real) < 2" by simp
  show "pow2 \<lfloor>log 2 \<bar>x\<bar>\<rfloor> \<le> \<bar>x\<bar>"
    unfolding pow2_powr using le_log_iff[OF two pos, of "of_int \<lfloor>log 2 \<bar>x\<bar>\<rfloor>"] by simp
  have "log 2 \<bar>x\<bar> < of_int (\<lfloor>log 2 \<bar>x\<bar>\<rfloor> + 1)" by linarith
  then show "\<bar>x\<bar> < pow2 (\<lfloor>log 2 \<bar>x\<bar>\<rfloor> + 1)"
    unfolding pow2_powr using pos by (simp only: log_less_iff[of 2, simplified])
qed

lemma floor_log_unique:
  assumes "pow2 p \<le> \<bar>x\<bar>" "\<bar>x\<bar> < pow2 (p + 1)"
  shows "\<lfloor>log 2 \<bar>x\<bar>\<rfloor> = p"
proof (rule floor_unique)
  have pos: "0 < \<bar>x\<bar>" using assms(1) pow2_pos[of p] by linarith
  show "of_int p \<le> log 2 \<bar>x\<bar>" using assms(1) pos unfolding pow2_powr by (simp add: le_log_iff)
  have "log 2 \<bar>x\<bar> < of_int (p + 1)"
    using assms(2) pos unfolding pow2_powr by (simp only: log_less_iff[of 2, simplified])
  then show "log 2 \<bar>x\<bar> < of_int p + 1" by simp
qed

lemma b64_eval:
  assumes "pow2 p \<le> \<bar>x\<bar>" "\<bar>x\<bar> < pow2 (p + 1)"
  shows "b64 x = of_int (roundHalfEven (x / pow2 (p - 52))) * pow2 (p - 52)"
proof -
  have "x \<noteq> 0" using assms(1) pow2_pos[of p] by auto
  then show ?thesis by (simp add: b64_def floor_log_unique[OF assms] Let_def)
qed

lemma roundHalfEven_int: "roundHalfEven (of_int n) = n"
  by (simp add: roundHalfEven_def)

lemma roundHalfEven_cases:
  "roundHalfEven x = \<lfloor>x\<rfloor> \<or> roundHalfEven x = \<lfloor>x\<rfloor> + 1"
  by (simp add: roundHalfEven_def Let_def)

lemma roundHalfEven_mono:
  assumes "x \<le> y"
  shows "roundHalfEven x \<le> roundHalfEven y"
proof (cases "\<lfloor>x\<rfloor> = \<lfloor>y\<rfloor>")
  case True
  then show ?thesis using assms by (auto simp: roundHalfEven_def Let_def)
next
  case False
  then have "\<lfloor>x\<rfloor> < \<lfloor>y\<rfloor>" using assms floor_mono[OF assms] by linarith
  then have "\<lfloor>x\<rfloor> + 1 \<le> \<lfloor>y\<rfloor>" by simp
  moreover have "roundHalfEven x \<le> \<lfloor>x\<rfloor> + 1" using roundHalfEven_cases[of x] by auto
  moreover have "\<lfloor>y\<rfloor> \<le> roundHalfEven y" using roundHalfEven_cases[of y] by auto
  ultimately show ?thesis by linarith
qed

lemma roundHalfEven_ge: "of_int n \<le> x \<Longrightarrow> n \<le> roundHalfEven x"
  using roundHalfEven_mono[of "of_int n" x] by (simp add: roundHalfEven_int)

lemma roundHalfEven_le: "x \<le> of_int n \<Longrightarrow> roundHalfEven x \<le> n"
  using roundHalfEven_mono[of x "of_int n"] by (simp add: roundHalfEven_int)

lemma b64_0: "b64 0 = 0"
  by (simp add: b64_def)

lemma b64_scale: "b64 (pow2 k * x) = pow2 k * b64 x"
proof (cases "x = 0")
  case True
  then show ?thesis by (simp add: b64_0)
next
  case False
  define p where "p = \<lfloor>log 2 \<bar>x\<bar>\<rfloor>"
  have bx: "pow2 p \<le> \<bar>x\<bar>" "\<bar>x\<bar> < pow2 (p + 1)"
    unfolding p_def using floor_log_bounds[OF False] by simp_all
  have a: "\<bar>pow2 k * x\<bar> = pow2 k * \<bar>x\<bar>" using pow2_pos[of k] by (simp add: abs_mult)
  have by1: "pow2 (k + p) \<le> \<bar>pow2 k * x\<bar>"
    unfolding a pow2_add using bx(1) pow2_pos[of k] by simp
  have by2: "\<bar>pow2 k * x\<bar> < pow2 (k + p + 1)"
  proof -
    have "pow2 k * \<bar>x\<bar> < pow2 k * pow2 (p + 1)" using bx(2) pow2_pos[of k] by simp
    then show ?thesis unfolding a by (simp add: pow2_add add.assoc)
  qed
  have q: "pow2 k * x / pow2 (k + p - 52) = x / pow2 (p - 52)"
  proof -
    have "pow2 (k + p - 52) = pow2 k * pow2 (p - 52)"
      using pow2_add[of k "p - 52"] by (simp add: algebra_simps)
    then show ?thesis using pow2_pos[of k] by simp
  qed
  have "b64 (pow2 k * x) = of_int (roundHalfEven (x / pow2 (p - 52))) * pow2 (k + p - 52)"
    unfolding b64_eval[OF by1 by2] q ..
  also have "pow2 (k + p - 52) = pow2 k * pow2 (p - 52)"
    using pow2_add[of k "p - 52"] by (simp add: algebra_simps)
  finally show ?thesis unfolding b64_eval[OF bx] by (simp add: algebra_simps)
qed

lemma b64_range:
  assumes "0 < x" "pow2 p \<le> x" "x < pow2 (p + 1)"
  shows "pow2 p \<le> b64 x" "b64 x \<le> pow2 (p + 1)"
proof -
  have ax: "\<bar>x\<bar> = x" using assms(1) by simp
  have ev: "b64 x = of_int (roundHalfEven (x / pow2 (p - 52))) * pow2 (p - 52)"
    by (rule b64_eval) (simp_all add: ax assms)
  have c: "pow2 52 = 2 ^ 52" "pow2 53 = 2 ^ 53" by (simp_all add: pow2_def)
  have "pow2 (52 + (p - 52)) = pow2 52 * pow2 (p - 52)"
    "pow2 (53 + (p - 52)) = pow2 53 * pow2 (p - 52)" by (rule pow2_add)+
  moreover have "52 + (p - 52) = p" "53 + (p - 52) = p + 1" by simp_all
  ultimately have s: "pow2 p = 2 ^ 52 * pow2 (p - 52)" "pow2 (p + 1) = 2 ^ 53 * pow2 (p - 52)"
    unfolding c by simp_all
  have lo: "of_int (2 ^ 52) \<le> x / pow2 (p - 52)"
    using assms(2) pow2_pos[of "p - 52"] unfolding s by (simp add: pos_le_divide_eq)
  have hi: "x / pow2 (p - 52) \<le> of_int (2 ^ 53)"
    using assms(3) pow2_pos[of "p - 52"] unfolding s by (simp add: pos_divide_le_eq)
  have "2 ^ 52 \<le> roundHalfEven (x / pow2 (p - 52))" by (rule roundHalfEven_ge[OF lo])
  then have "(2::real) ^ 52 \<le> of_int (roundHalfEven (x / pow2 (p - 52)))"
    by (metis of_int_le_iff of_int_numeral of_int_power)
  then show "pow2 p \<le> b64 x" unfolding ev s using pow2_pos[of "p - 52"] by simp
  have "roundHalfEven (x / pow2 (p - 52)) \<le> 2 ^ 53" by (rule roundHalfEven_le[OF hi])
  then have "of_int (roundHalfEven (x / pow2 (p - 52))) \<le> (2::real) ^ 53"
    by (metis of_int_le_iff of_int_numeral of_int_power)
  then show "b64 x \<le> pow2 (p + 1)" unfolding ev s using pow2_pos[of "p - 52"] by simp
qed

lemma b64_pos: "0 < x \<Longrightarrow> 0 < b64 x"
proof -
  assume x: "0 < x"
  then have "x \<noteq> 0" by simp
  from floor_log_bounds[OF this] x have "pow2 \<lfloor>log 2 \<bar>x\<bar>\<rfloor> \<le> x" "x < pow2 (\<lfloor>log 2 \<bar>x\<bar>\<rfloor> + 1)"
    by simp_all
  from b64_range(1)[OF x this] pow2_pos[of "\<lfloor>log 2 \<bar>x\<bar>\<rfloor>"] show ?thesis by linarith
qed

lemma b64_mono_pos:
  assumes "0 < x" "x \<le> y"
  shows "b64 x \<le> b64 y"
proof -
  define p where "p = \<lfloor>log 2 \<bar>x\<bar>\<rfloor>"
  define r where "r = \<lfloor>log 2 \<bar>y\<bar>\<rfloor>"
  have y: "0 < y" using assms by simp
  have bx: "pow2 p \<le> x" "x < pow2 (p + 1)"
    unfolding p_def using floor_log_bounds[of x] assms(1) by simp_all
  have byy: "pow2 r \<le> y" "y < pow2 (r + 1)"
    unfolding r_def using floor_log_bounds[of y] y by simp_all
  have pr: "p \<le> r" unfolding p_def r_def using assms by (intro floor_mono) (simp add: log_le_cancel_iff)
  show ?thesis
  proof (cases "p = r")
    case True
    have "x / pow2 (p - 52) \<le> y / pow2 (p - 52)"
      using assms(2) pow2_pos[of "p - 52"] by (simp add: divide_right_mono)
    then have "roundHalfEven (x / pow2 (p - 52)) \<le> roundHalfEven (y / pow2 (p - 52))"
      by (rule roundHalfEven_mono)
    then have "of_int (roundHalfEven (x / pow2 (p - 52))) * pow2 (p - 52)
        \<le> of_int (roundHalfEven (y / pow2 (p - 52))) * pow2 (p - 52)"
      using pow2_pos[of "p - 52"] by simp
    moreover have "b64 x = of_int (roundHalfEven (x / pow2 (p - 52))) * pow2 (p - 52)"
      by (rule b64_eval) (use bx assms(1) in simp_all)
    moreover have "b64 y = of_int (roundHalfEven (y / pow2 (p - 52))) * pow2 (p - 52)"
      by (rule b64_eval) (use byy y True in simp_all)
    ultimately show ?thesis by simp
  next
    case False
    then have "p + 1 \<le> r" using pr by simp
    then have "pow2 (p + 1) \<le> pow2 r" by (rule pow2_mono)
    with b64_range(2)[OF assms(1) bx] b64_range(1)[OF y byy] show ?thesis by linarith
  qed
qed

lemma b64_mono_nonneg: "0 \<le> x \<Longrightarrow> x \<le> y \<Longrightarrow> b64 x \<le> b64 y"
proof -
  assume a: "0 \<le> x" "x \<le> y"
  show ?thesis
  proof (cases "x = 0")
    case True
    show ?thesis
    proof (cases "y = 0")
      case True
      with \<open>x = 0\<close> show ?thesis by simp
    next
      case False
      then have "0 < b64 y" using a True by (intro b64_pos) simp
      then show ?thesis using True by (simp add: b64_0)
    qed
  next
    case False
    then show ?thesis using a by (intro b64_mono_pos) simp_all
  qed
qed

lemma b64_nonneg: "0 \<le> x \<Longrightarrow> 0 \<le> b64 x"
  using b64_mono_nonneg[of 0 x] by (simp add: b64_0)

lemma b64_int_small:
  assumes "pow2 p \<le> \<bar>of_int n\<bar>" "\<bar>of_int n :: real\<bar> < pow2 (p + 1)" "p \<le> 52"
  shows "b64 (of_int n) = of_int n"
proof -
  have e: "pow2 (p - 52) = 1 / 2 ^ nat (52 - p)"
    using assms(3) by (cases "p = 52") (auto simp: pow2_def)
  have "of_int n / pow2 (p - 52) = (of_int (n * 2 ^ nat (52 - p)) :: real)"
    unfolding e by simp
  then have "roundHalfEven (of_int n / pow2 (p - 52)) = n * 2 ^ nat (52 - p)"
    by (simp only: roundHalfEven_int)
  then show ?thesis unfolding b64_eval[OF assms(1,2)] e by simp
qed

lemma b64_1: "b64 1 = 1"
  using b64_int_small[of 0 1] by (simp add: pow2_def)

lemma b64_255: "b64 255 = 255"
  using b64_int_small[of 7 255] by (simp add: pow2_def)

section \<open>Utils.normalize: range and the constant array\<close>

lemma toUint8Clamped_le: "toUint8Clamped v \<le> 255"
proof (cases v)
  case None
  then show ?thesis by (simp add: toUint8Clamped_def)
next
  case (Some x)
  show ?thesis
  proof (cases "x \<le> 0 \<or> 255 \<le> x")
    case True
    with Some show ?thesis by (auto simp: toUint8Clamped_def)
  next
    case False
    then have "0 \<le> \<lfloor>x\<rfloor>" "\<lfloor>x\<rfloor> \<le> 254" by linarith+
    then have "nat \<lfloor>x\<rfloor> \<le> 255" "nat (\<lfloor>x\<rfloor> + 1) \<le> 255" by linarith+
    with Some False show ?thesis by (simp add: toUint8Clamped_def Let_def)
  qed
qed

lemma toUint8Clamped_0: "toUint8Clamped (Some 0) = 0"
  by (simp add: toUint8Clamped_def)

lemma fold_Math_min_Some: "fold Math_min (map Some xs) (Some x) = Some (fold min xs x)"
  by (induction xs arbitrary: x) (auto simp: min.commute)

lemma fold_Math_max_Some: "fold Math_max (map Some xs) (Some x) = Some (fold max xs x)"
  by (induction xs arbitrary: x) (auto simp: max.commute)

lemma normalizeValues_length: "length (normalizeValues d) = length d"
  by (cases d) (simp_all add: normalizeValues_def Let_def)

lemma normalize_length: "length (normalize d) = length d"
  by (simp add: normalize_def normalizeValues_length)

lemma normalize_le: "v \<in> set (normalize d) \<Longrightarrow> v \<le> 255"
  by (auto simp: normalize_def toUint8Clamped_le)

text \<open>The value of the loop on finite numbers.\<close>

lemma normalizeValue_finite:
  "normalizeValue (Some mn) (Some r) (Some v) =
     Some (if 0 < r then b64 (b64 (b64 (v - mn) / r) * 255) else 0)"
  by (simp add: normalizeValue_def fsub_def fmul_def fdiv_def)

lemma normalizeValues_finite:
  assumes "xs \<noteq> []"
  shows "normalizeValues (map Some xs) =
     map (\<lambda>v. Some (if 0 < b64 (Max (set xs) - Min (set xs))
                      then b64 (b64 (b64 (v - Min (set xs)) / b64 (Max (set xs) - Min (set xs))) * 255)
                      else 0)) xs"
proof -
  from assms obtain y ys where xs: "xs = y # ys" by (cases xs) auto
  have mn: "fold min ys y = Min (set xs)" unfolding xs by (rule Min.set_eq_fold[symmetric])
  have mx: "fold max ys y = Max (set xs)" unfolding xs by (rule Max.set_eq_fold[symmetric])
  have "normalizeValues (map Some xs) =
     map (normalizeValue (Some (fold min ys y)) (Some (b64 (fold max ys y - fold min ys y))))
       (map Some xs)"
    unfolding xs
    by (simp add: normalizeValues_def fold_Math_min_Some fold_Math_max_Some Let_def fsub_def)
  then show ?thesis unfolding mn mx by (simp add: normalizeValue_finite o_def)
qed

lemma range_pos_iff:
  assumes "xs \<noteq> []"
  shows "0 < b64 (Max (set xs) - Min (set xs)) \<longleftrightarrow> Min (set xs) < Max (set xs)"
proof
  assume "Min (set xs) < Max (set xs)"
  then show "0 < b64 (Max (set xs) - Min (set xs))" by (intro b64_pos) simp
next
  assume p: "0 < b64 (Max (set xs) - Min (set xs))"
  have "Min (set xs) \<le> Max (set xs)" using assms by (simp add: Min_le_iff)
  moreover have "Min (set xs) \<noteq> Max (set xs)" using p by (auto simp: b64_0)
  ultimately show "Min (set xs) < Max (set xs)" by simp
qed

lemma normalizeValues_constant:
  "normalizeValues (replicate n (Some c)) = replicate n (Some 0)"
proof (cases n)
  case 0
  then show ?thesis by (simp add: normalizeValues_def)
next
  case (Suc m)
  have ne: "replicate n c \<noteq> []" using Suc by simp
  have st: "set (replicate n c) = {c}" using Suc by auto
  have "normalizeValues (map Some (replicate n c)) = replicate n (Some 0)"
    unfolding normalizeValues_finite[OF ne] st
    by (simp add: b64_0 map_replicate_const)
  then show ?thesis by simp
qed

lemma normalize_constant: "normalize (replicate n (Some c)) = replicate n 0"
  by (simp add: normalize_def normalizeValues_constant toUint8Clamped_0)

lemma normalizeValues_no_NaN: "None \<notin> set (normalizeValues (map Some xs))"
proof (cases "xs = []")
  case True
  then show ?thesis by (simp add: normalizeValues_def)
next
  case False
  show ?thesis unfolding normalizeValues_finite[OF False] by auto
qed

text \<open>The rescaled value lies in \<open>[0, 255]\<close>, rounding included.\<close>

lemma rescaled_bounds:
  assumes "mn \<le> v" "v \<le> mx" "mn < mx"
  shows "0 \<le> b64 (b64 (b64 (v - mn) / b64 (mx - mn)) * 255)"
    "b64 (b64 (b64 (v - mn) / b64 (mx - mn)) * 255) \<le> 255"
proof -
  have r: "0 < b64 (mx - mn)" using assms(3) by (intro b64_pos) simp
  have d0: "0 \<le> b64 (v - mn)" using assms(1) by (intro b64_nonneg) simp
  have d1: "b64 (v - mn) \<le> b64 (mx - mn)" using assms(1,2) by (intro b64_mono_nonneg) simp_all
  have q0: "0 \<le> b64 (v - mn) / b64 (mx - mn)" using d0 r by simp
  have q1: "b64 (v - mn) / b64 (mx - mn) \<le> 1" using d1 r by simp
  have b0: "0 \<le> b64 (b64 (v - mn) / b64 (mx - mn))" using q0 by (rule b64_nonneg)
  have "b64 (b64 (v - mn) / b64 (mx - mn)) \<le> b64 1" using q0 q1 by (rule b64_mono_nonneg)
  then have b1: "b64 (b64 (v - mn) / b64 (mx - mn)) \<le> 1" by (simp only: b64_1)
  have p0: "0 \<le> b64 (b64 (v - mn) / b64 (mx - mn)) * 255" using b0 by simp
  have p1: "b64 (b64 (v - mn) / b64 (mx - mn)) * 255 \<le> 255" using b1 by linarith
  show "0 \<le> b64 (b64 (b64 (v - mn) / b64 (mx - mn)) * 255)" using p0 by (rule b64_nonneg)
  have "b64 (b64 (b64 (v - mn) / b64 (mx - mn)) * 255) \<le> b64 255" using p0 p1 by (rule b64_mono_nonneg)
  then show "b64 (b64 (b64 (v - mn) / b64 (mx - mn)) * 255) \<le> 255" by (simp only: b64_255)
qed

text \<open>
  Claim C8. \<^verbatim>\<open>normalize\<close> returns an array of the length of its input with every value
  in \<open>[0, 255]\<close>, each being the value of the loop stored into the
  \<^verbatim>\<open>Uint8ClampedArray\<close>. On a constant array (all zeros, say) the value of the loop is
  the number 0 at every index, before the store: the guard \<^verbatim>\<open>range > 0\<close> keeps the
  division by the zero range from being evaluated, so no \<^verbatim>\<open>NaN\<close> is produced, and every
  output value is 0. On an array of finite numbers no value of the loop is \<^verbatim>\<open>NaN\<close>; and
  when the maximum exceeds the minimum, each value of the loop is the linear rescaling
  \<open>(v - min) / (max - min) \<cdot> 255\<close>, every operation rounded to binary64, a number in
  \<open>[0, 255]\<close>.
\<close>

theorem normalize_range:
  "length (normalize d) = length d
   \<and> (\<forall>v \<in> set (normalize d). v \<le> 255)
   \<and> normalize d = map toUint8Clamped (normalizeValues d)
   \<and> normalizeValues (replicate n (Some c)) = replicate n (Some 0)
   \<and> normalize (replicate n (Some c)) = replicate n 0
   \<and> None \<notin> set (normalizeValues (map Some xs))
   \<and> (Min (set xs) < Max (set xs) \<longrightarrow>
        normalizeValues (map Some xs) =
          map (\<lambda>v. Some (b64 (b64 (b64 (v - Min (set xs)) / b64 (Max (set xs) - Min (set xs))) * 255))) xs
        \<and> (\<forall>v \<in> set xs.
              0 \<le> b64 (b64 (b64 (v - Min (set xs)) / b64 (Max (set xs) - Min (set xs))) * 255)
              \<and> b64 (b64 (b64 (v - Min (set xs)) / b64 (Max (set xs) - Min (set xs))) * 255) \<le> 255))"
proof (intro conjI impI ballI)
  show "length (normalize d) = length d" by (rule normalize_length)
  show "\<And>v. v \<in> set (normalize d) \<Longrightarrow> v \<le> 255" by (rule normalize_le)
  show "normalize d = map toUint8Clamped (normalizeValues d)" by (rule normalize_def)
  show "normalizeValues (replicate n (Some c)) = replicate n (Some 0)"
    by (rule normalizeValues_constant)
  show "normalize (replicate n (Some c)) = replicate n 0" by (rule normalize_constant)
  show "None \<notin> set (normalizeValues (map Some xs))" by (rule normalizeValues_no_NaN)
next
  assume lt: "Min (set xs) < Max (set xs)"
  show "normalizeValues (map Some xs) =
          map (\<lambda>v. Some (b64 (b64 (b64 (v - Min (set xs)) / b64 (Max (set xs) - Min (set xs))) * 255))) xs"
  proof (cases "xs = []")
    case True
    then show ?thesis by (simp add: normalizeValues_def)
  next
    case False
    then show ?thesis using lt by (simp add: normalizeValues_finite range_pos_iff)
  qed
next
  fix v assume lt: "Min (set xs) < Max (set xs)" and v: "v \<in> set xs"
  have "Min (set xs) \<le> v" "v \<le> Max (set xs)" using v by simp_all
  from rescaled_bounds(1)[OF this lt]
  show "0 \<le> b64 (b64 (b64 (v - Min (set xs)) / b64 (Max (set xs) - Min (set xs))) * 255)" .
next
  fix v assume lt: "Min (set xs) < Max (set xs)" and v: "v \<in> set xs"
  have "Min (set xs) \<le> v" "v \<le> Max (set xs)" using v by simp_all
  from rescaled_bounds(2)[OF this lt]
  show "b64 (b64 (b64 (v - Min (set xs)) / b64 (Max (set xs) - Min (set xs))) * 255) \<le> 255" .
qed

text \<open>Some numbers that binary64 holds exactly.\<close>

lemma b64_2: "b64 2 = 2"
  using b64_int_small[of 1 2] by (simp add: pow2_def)

lemma b64_half: "b64 (1 / 2) = 1 / 2"
  using b64_eval[of "-1" "1 / 2"] by (simp add: pow2_def roundHalfEven_def)

lemma b64_255_half: "b64 (255 / 2) = 255 / 2"
  using b64_eval[of 6 "255 / 2"] by (simp add: pow2_def roundHalfEven_def)

theorem normalize_range_witness:
  "Min (set [1, 3, 2 :: real]) < Max (set [1, 3, 2 :: real])
   \<and> normalizeValues [Some 1, Some 3, Some 2] = [Some 0, Some 255, Some (255 / 2)]
   \<and> normalize [Some 1, Some 3, Some 2] = [0, 255, 128]
   \<and> normalizeValues [Some 7, Some 7] = [Some 0, Some 0]
   \<and> normalize [Some 7, Some 7] = [0, 0]"
  using normalize_range[of "[Some 1, Some 3, Some 2]" 2 7 "[1, 3, 2]"]
  by (simp add: b64_0 b64_1 b64_2 b64_half b64_255 b64_255_half toUint8Clamped_def
      numeral_2_eq_2)

section \<open>The classifier and the scale of its input\<close>

lemma Min_affine:
  assumes "0 < (a::real)" "xs \<noteq> []"
  shows "Min (set (map (\<lambda>v. a * v + b) xs)) = a * Min (set xs) + b"
proof -
  have "mono (\<lambda>v. a * v + b)" using assms(1) by (auto simp: mono_def)
  from mono_Min_commute[OF this, of "set xs"] assms(2) show ?thesis by simp
qed

lemma Max_affine:
  assumes "0 < (a::real)" "xs \<noteq> []"
  shows "Max (set (map (\<lambda>v. a * v + b) xs)) = a * Max (set xs) + b"
proof -
  have "mono (\<lambda>v. a * v + b)" using assms(1) by (auto simp: mono_def)
  from mono_Max_commute[OF this, of "set xs"] assms(2) show ?thesis by simp
qed

text \<open>
  A scale by a power of two commutes with every rounding of the loop, and an offset
  cancels in the differences before anything is rounded.
\<close>

lemma normalizeValues_pow2:
  "normalizeValues (map (\<lambda>v. Some (pow2 k * v + b)) xs) = normalizeValues (map Some xs)"
proof (cases "xs = []")
  case True
  then show ?thesis by simp
next
  case False
  let ?ys = "map (\<lambda>v. pow2 k * v + b) xs"
  have a: "0 < pow2 k" by (rule pow2_pos)
  have ne: "?ys \<noteq> []" using False by simp
  have eq: "map (\<lambda>v. Some (pow2 k * v + b)) xs = map Some ?ys" by simp
  have "Max (set ?ys) - Min (set ?ys) = pow2 k * (Max (set xs) - Min (set xs))"
    unfolding Min_affine[OF a False] Max_affine[OF a False] by (simp add: algebra_simps)
  then have rng: "b64 (Max (set ?ys) - Min (set ?ys)) = pow2 k * b64 (Max (set xs) - Min (set xs))"
    by (simp only: b64_scale)
  have dif: "b64 (pow2 k * v + b - Min (set ?ys)) = pow2 k * b64 (v - Min (set xs))" for v
  proof -
    have "pow2 k * v + b - Min (set ?ys) = pow2 k * (v - Min (set xs))"
      unfolding Min_affine[OF a False] by (simp add: algebra_simps)
    then show ?thesis by (simp only: b64_scale)
  qed
  have quot: "pow2 k * x / (pow2 k * r) = x / r" for x r
    using a by simp
  have pos: "0 < pow2 k * r \<longleftrightarrow> 0 < r" for r
    using a by (simp add: zero_less_mult_iff)
  have nz: "pow2 k \<noteq> 0" using a by simp
  show ?thesis
    unfolding eq normalizeValues_finite[OF ne] normalizeValues_finite[OF False] rng
    by (simp add: dif pos nz o_def del: set_map)
qed

text \<open>
  Claim C10, amended. The classifier normalizes its input before scoring, so for every
  spectrum \<open>X\<close> of finite numbers, every scale \<open>a = 2\<^sup>k\<close> that is a power of two (\<open>k\<close> an
  integer of either sign) and every offset \<open>b\<close>, the spectrum whose values are
  \<open>a \<cdot> X + b\<close> has the normalized values of \<open>X\<close>, in the binary64 arithmetic of
  \<^verbatim>\<open>normalize\<close>, and with them the five scores of \<open>X\<close>. It holds whether or not the
  maximum of \<open>X\<close> exceeds its minimum. (For the source, the values \<open>a \<cdot> X + b\<close> are
  those that a \<^verbatim>\<open>Float32Array\<close> holds exactly.)
\<close>

theorem analyzeFFTPattern_pow2_scale:
  "normalize (map (\<lambda>v. Some (pow2 k * v + b)) xs) = normalize (map Some xs)
   \<and> analyzeFFTPattern (map (\<lambda>v. Some (pow2 k * v + b)) xs) w h
     = analyzeFFTPattern (map Some xs) w h"
  by (simp add: analyzeFFTPattern_def normalize_def normalizeValues_pow2)

text \<open>
  The roundings of the loop on two inputs, the second being \<open>9/8\<close> times the first. The
  arguments are the exact differences, quotients and products, written as one fraction.
\<close>

lemma r1: "b64 (37009561390940163 / 70368744177664) = 8415 / 16"
  using b64_eval[of 9 "37009561390940163 / 70368744177664"]
  by (simp add: pow2_def roundHalfEven_def)

lemma d1: "b64 (34905096135376899 / 70368744177664) = 8726274033844225 / 17592186044416"
  using b64_eval[of 8 "34905096135376899 / 70368744177664"]
  by (simp add: pow2_def roundHalfEven_def)

lemma q1: "b64 (1745254806768845 / 1850478069547008) = 8495025179471407 / 9007199254740992"
  using b64_eval[of "-1" "1745254806768845 / 1850478069547008"]
  by (simp add: pow2_def roundHalfEven_def)

lemma p1: "b64 (2166231420765208785 / 9007199254740992) = 8461841487364097 / 35184372088832"
  using b64_eval[of 7 "2166231420765208785 / 9007199254740992"]
  by (simp add: pow2_def roundHalfEven_def)

lemma r2: "b64 (333086052518461467 / 562949953421312) = 75735 / 128"
  using b64_eval[of 9 "333086052518461467 / 562949953421312"]
  by (simp add: pow2_def roundHalfEven_def)

lemma d2: "b64 (314145865218392091 / 562949953421312) = 142857 / 256"
  using b64_eval[of 9 "314145865218392091 / 562949953421312"]
  by (simp add: pow2_def roundHalfEven_def)

lemma q2: "b64 (481 / 510) = 4247512589735703 / 4503599627370496"
  using b64_eval[of "-1" "481 / 510"]
  by (simp add: pow2_def roundHalfEven_def)

lemma p2: "b64 (1083115710382604265 / 4503599627370496) = 481 / 2"
  using b64_eval[of 7 "1083115710382604265 / 4503599627370496"]
  by (simp add: pow2_def roundHalfEven_def)

lemma nv1:
  "normalizeValues [Some (- 3 / 2 ^ 46), Some (15873 / 32), Some (8415 / 16), Some (- 3 / 2 ^ 46)]
     = [Some 0, Some (8461841487364097 / 35184372088832), Some 255, Some 0]"
  by (simp add: normalizeValues_def normalizeValue_def fsub_def fmul_def fdiv_def
      b64_0 b64_1 b64_255 r1 d1 q1 p1)

lemma nv2:
  "normalizeValues [Some (- 27 / 2 ^ 49), Some (142857 / 256), Some (75735 / 128), Some (- 27 / 2 ^ 49)]
     = [Some 0, Some (481 / 2), Some 255, Some 0]"
  by (simp add: normalizeValues_def normalizeValue_def fsub_def fmul_def fdiv_def
      b64_0 b64_1 b64_255 r2 d2 q2 p2)

lemma n1:
  "normalize [Some (- 3 / 2 ^ 46), Some (15873 / 32), Some (8415 / 16), Some (- 3 / 2 ^ 46)]
     = [0, 241, 255, 0]"
  unfolding normalize_def nv1 by (simp add: toUint8Clamped_def)

lemma n2:
  "normalize [Some (- 27 / 2 ^ 49), Some (142857 / 256), Some (75735 / 128), Some (- 27 / 2 ^ 49)]
     = [0, 240, 255, 0]"
  unfolding normalize_def nv2 by (simp add: toUint8Clamped_def)

text \<open>
  Claim C10 fails as stated. The spectrum \<open>X = - 3/2\<^sup>4\<^sup>6, 15873/32, 8415/16, - 3/2\<^sup>4\<^sup>6\<close> and
  its multiple \<open>9/8 \<cdot> X\<close> are both held exactly by a \<^verbatim>\<open>Float32Array\<close>. The value of the
  loop at index 1 is just above \<open>240.5\<close> for \<open>X\<close> and exactly \<open>240.5\<close> for \<open>9/8 \<cdot> X\<close>:
  the stores are 241 and 240, and the bright-dot score, which counts the values above 240,
  is \<open>2/500\<close> for \<open>X\<close> and \<open>1/500\<close> for \<open>9/8 \<cdot> X\<close>.
\<close>

theorem analyzeFFTPattern_scale_rounding:
  "(0::real) < 9 / 8
   \<and> Min (set [- 3 / 2 ^ 46, 15873 / 32, 8415 / 16, - 3 / 2 ^ 46 :: real])
       < Max (set [- 3 / 2 ^ 46, 15873 / 32, 8415 / 16, - 3 / 2 ^ 46])
   \<and> normalize (map Some [- 3 / 2 ^ 46, 15873 / 32, 8415 / 16, - 3 / 2 ^ 46]) = [0, 241, 255, 0]
   \<and> normalize (map (\<lambda>v. Some (9 / 8 * v + 0)) [- 3 / 2 ^ 46, 15873 / 32, 8415 / 16, - 3 / 2 ^ 46])
       = [0, 240, 255, 0]
   \<and> brightDots (analyzeFFTPattern
         (map Some [- 3 / 2 ^ 46, 15873 / 32, 8415 / 16, - 3 / 2 ^ 46]) 2 2) = Some (2 / 500)
   \<and> brightDots (analyzeFFTPattern
         (map (\<lambda>v. Some (9 / 8 * v + 0)) [- 3 / 2 ^ 46, 15873 / 32, 8415 / 16, - 3 / 2 ^ 46]) 2 2)
       = Some (1 / 500)"
proof -
  have e: "map (\<lambda>v. Some (9 / 8 * v + 0)) [- 3 / 2 ^ 46, 15873 / 32, 8415 / 16, - 3 / 2 ^ 46 :: real]
      = [Some (- 27 / 2 ^ 49), Some (142857 / 256), Some (75735 / 128), Some (- 27 / 2 ^ 49)]"
    by simp
  have f: "map Some [- 3 / 2 ^ 46, 15873 / 32, 8415 / 16, - 3 / 2 ^ 46 :: real]
      = [Some (- 3 / 2 ^ 46), Some (15873 / 32), Some (8415 / 16), Some (- 3 / 2 ^ 46)]"
    by simp
  have b1: "brightCount [0, 241, 255, 0] = 2" and b2: "brightCount [0, 240, 255, 0] = 1"
    by (simp_all add: brightCount_def tick_def above_def rdU_def upt_conv_Cons)
  show ?thesis
    unfolding e f analyzeFFTPattern_def Let_def n1 n2 b1 b2 by simp
qed

section \<open>The decision rule\<close>



section \<open>Utils.fftShift is its own inverse\<close>

lemma fold_product:
  "fold (\<lambda>y s. fold (\<lambda>x s. F y x s) xs s) ys s0 = fold (\<lambda>(y, x) s. F y x s) (List.product ys xs) s0"
proof (induction ys arbitrary: s0)
  case Nil
  then show ?case by simp
next
  case (Cons y ys)
  have "fold (\<lambda>x s. F y x s) xs s0 = fold (\<lambda>(y, x) s. F y x s) (map (Pair y) xs) s0" for s0
    by (induction xs arbitrary: s0) auto
  with Cons show ?case by simp
qed

lemma length_fold_update: "length (fold (\<lambda>p s. s[f p := g p]) ps s) = length s"
  by (induction ps arbitrary: s) auto

lemma fold_update_other:
  "q \<notin> f ` set ps \<Longrightarrow> fold (\<lambda>p s. s[f p := g p]) ps s ! q = s ! q"
  by (induction ps arbitrary: s) auto

lemma fold_update_hit:
  "distinct ps \<Longrightarrow> inj_on f (set ps) \<Longrightarrow> p \<in> set ps \<Longrightarrow> f p < length s
     \<Longrightarrow> fold (\<lambda>p s. s[f p := g p]) ps s ! f p = g p"
proof (induction ps arbitrary: s)
  case Nil
  then show ?case by simp
next
  case (Cons a ps)
  show ?case
  proof (cases "p = a")
    case True
    then have "f p \<notin> f ` set ps" using Cons.prems by (auto simp: inj_on_def)
    then show ?thesis using True Cons.prems by (simp add: fold_update_other)
  next
    case False
    then show ?thesis using Cons by (auto simp: inj_on_def)
  qed
qed

lemma fftShift_fold:
  "fftShift d w h = fold (\<lambda>p s. s[shiftIdx w h p := (\<lambda>(y, x). rd d (y * w + x)) p])
      (List.product [0..<h] [0..<w]) (replicate (length d) (Some 0))"
  unfolding fftShift_def Let_def fold_product shiftIdx_def
  by (rule arg_cong[where f="\<lambda>F. fold F _ _"]) (auto simp: fun_eq_iff)

lemma length_fftShift: "length (fftShift d w h) = length d"
  by (simp add: fftShift_fold length_fold_update)

lemma cell_unique:
  assumes "(a::nat) * w + b = c * w + e" "b < w" "e < w"
  shows "a = c \<and> b = e"
proof -
  have "(a * w + b) div w = a" "(c * w + e) div w = c" using assms(2,3) by simp_all
  moreover have "(a * w + b) div w = (c * w + e) div w" by (simp only: assms(1))
  ultimately have "a = c" by simp
  with assms(1) show ?thesis by simp
qed

lemma mod_below_twice: "a < 2 * h \<Longrightarrow> (a::nat) mod h = (if a < h then a else a - h)"
  by (simp add: le_mod_geq)

lemma rot_inj:
  assumes "(y + k) mod h = (y' + k) mod h" "y < h" "y' < h"
  shows "y = (y' :: nat)"
proof -
  have eq: "(y + k mod h) mod h = (y' + k mod h) mod h"
    using assms(1) by (simp add: mod_add_right_eq)
  have "k mod h < h" using assms(2) by simp
  then have "y + k mod h < 2 * h" "y' + k mod h < 2 * h" using assms(2,3) by linarith+
  from eq[unfolded mod_below_twice[OF this(1)] mod_below_twice[OF this(2)]] assms(2,3)
  show ?thesis by (auto split: if_splits)
qed

lemma shiftIdx_inj: "inj_on (shiftIdx w h) (set (List.product [0..<h] [0..<w]))"
proof (rule inj_onI)
  fix p q assume p: "p \<in> set (List.product [0..<h] [0..<w])" and q: "q \<in> set (List.product [0..<h] [0..<w])"
    and eq: "shiftIdx w h p = shiftIdx w h q"
  obtain y x where pp: "p = (y, x)" by (cases p)
  obtain y' x' where qq: "q = (y', x')" by (cases q)
  from p q pp qq have b: "y < h" "x < w" "y' < h" "x' < w" by auto
  from eq have "((y + h div 2) mod h) * w + (x + w div 2) mod w = ((y' + h div 2) mod h) * w + (x' + w div 2) mod w"
    by (simp add: shiftIdx_def pp qq)
  from cell_unique[OF this] b have "(y + h div 2) mod h = (y' + h div 2) mod h" "(x + w div 2) mod w = (x' + w div 2) mod w"
    by auto
  with b show "p = q" unfolding pp qq by (auto dest: rot_inj)
qed

lemma cell_less: "y < h \<Longrightarrow> x < w \<Longrightarrow> y * w + x < w * (h::nat)"
proof -
  assume a: "y < h" "x < w"
  then have "y * w + x < y * w + w" by simp
  also have "\<dots> = (Suc y) * w" by simp
  also have "\<dots> \<le> h * w" using a by (intro mult_le_mono1) simp
  finally show ?thesis by (simp add: mult.commute)
qed

lemma fftShift_moves:
  assumes len: "length d = w * h" and y: "y < h" and x: "x < w"
  shows "fftShift d w h ! (((y + h div 2) mod h) * w + (x + w div 2) mod w) = d ! (y * w + x)"
proof -
  have mem: "(y, x) \<in> set (List.product [0..<h] [0..<w])" using y x by simp
  have "(y + h div 2) mod h < h" "(x + w div 2) mod w < w" using y x by simp_all
  then have lt: "shiftIdx w h (y, x) < length (replicate (length d) (Some (0::real)))"
    unfolding shiftIdx_def using cell_less[of "(y + h div 2) mod h" h "(x + w div 2) mod w" w] len by simp
  have "fftShift d w h ! shiftIdx w h (y, x) = (\<lambda>(y, x). rd d (y * w + x)) (y, x)"
    unfolding fftShift_fold
    by (rule fold_update_hit[OF _ shiftIdx_inj mem lt]) (simp add: distinct_product)
  moreover have "y * w + x < length d" using cell_less[OF y x] len by simp
  ultimately show ?thesis by (simp add: shiftIdx_def rd_def)
qed

lemma rot_twice:
  assumes "even h" "y < (h::nat)"
  shows "((y + h div 2) mod h + h div 2) mod h = y"
proof -
  have "((y + h div 2) mod h + h div 2) mod h = (y + h div 2 + h div 2) mod h"
    by (simp add: mod_add_left_eq)
  also have "h div 2 + h div 2 = h" using assms(1) by auto
  then have "(y + h div 2 + h div 2) mod h = (y + h) mod h" by (simp add: add.assoc)
  also have "\<dots> = y" using assms(2) by simp
  finally show ?thesis .
qed

text \<open>
  Claim C7. For every array \<open>X\<close> of even width \<open>w\<close> and even height \<open>h\<close> (of \<open>w \<cdot> h\<close>
  elements), \<^verbatim>\<open>fftShift\<close> applied twice returns \<open>X\<close>, and \<^verbatim>\<open>fftShift\<close> moves the
  element at column \<open>x\<close>, row \<open>y\<close> to column \<open>(x + w/2) mod w\<close>, row
  \<open>(y + h/2) mod h\<close>.
\<close>

theorem fftShift_involution:
  assumes "even w" "even h" "length X = w * h"
  shows "fftShift (fftShift X w h) w h = X
     \<and> (\<forall>y < h. \<forall>x < w. fftShift X w h ! (((y + h div 2) mod h) * w + (x + w div 2) mod w) = X ! (y * w + x))"
proof
  show "fftShift (fftShift X w h) w h = X"
  proof (rule nth_equalityI)
    show "length (fftShift (fftShift X w h) w h) = length X" by (simp add: length_fftShift)
  next
    fix p assume "p < length (fftShift (fftShift X w h) w h)"
    then have p: "p < w * h" using assms(3) by (simp add: length_fftShift)
    then have w0: "0 < w" by (cases w) auto
    define y x where "y = p div w" and "x = p mod w"
    have x: "x < w" using w0 by (simp add: x_def)
    have y: "y < h" using p w0 by (simp add: y_def less_mult_imp_div_less mult.commute)
    have pe: "p = y * w + x" by (simp add: y_def x_def)
    define y' x' where "y' = (y + h div 2) mod h" and "x' = (x + w div 2) mod w"
    have y': "y' < h" and x': "x' < w" using y x by (simp_all add: y'_def x'_def)
    have inv: "(y' + h div 2) mod h = y" "(x' + w div 2) mod w = x"
      unfolding y'_def x'_def using rot_twice assms y x by simp_all
    have "fftShift (fftShift X w h) w h ! (((y' + h div 2) mod h) * w + (x' + w div 2) mod w)
        = fftShift X w h ! (y' * w + x')"
      by (rule fftShift_moves) (simp_all add: length_fftShift assms y' x')
    also have "\<dots> = X ! (y * w + x)"
      unfolding y'_def x'_def by (rule fftShift_moves) (simp_all add: assms y x)
    finally show "fftShift (fftShift X w h) w h ! p = X ! p" by (simp add: inv pe)
  qed
next
  show "\<forall>y < h. \<forall>x < w. fftShift X w h ! (((y + h div 2) mod h) * w + (x + w div 2) mod w) = X ! (y * w + x)"
    using fftShift_moves[OF assms(3)] by blast
qed



theorem fftShift_involution_witness:
  "even (4::nat) \<and> even (2::nat)
   \<and> length [Some 1, Some 2, Some 3, Some 4, Some 5, Some 6, Some 7, Some (8::real)] = 4 * 2
   \<and> fftShift [Some 1, Some 2, Some 3, Some 4, Some 5, Some 6, Some 7, Some 8] 4 2
       = [Some 7, Some 8, Some 5, Some 6, Some 3, Some 4, Some 1, Some 2]
   \<and> fftShift (fftShift [Some 1, Some 2, Some 3, Some 4, Some 5, Some 6, Some 7, Some 8] 4 2) 4 2
       = [Some 1, Some 2, Some 3, Some 4, Some 5, Some 6, Some 7, Some 8]"
  using fftShift_involution[of 4 2 "[Some 1, Some 2, Some 3, Some 4, Some 5, Some 6, Some 7, Some 8]"]
  by (simp add: fftShift_def rd_def upt_conv_Cons)


section \<open>Counting loops, and the all-zero spectrum\<close>

lemma fold_tick: "fold (\<lambda>p count. tick (Q p) count) ps c = c + length (filter Q ps)"
  by (induction ps arbitrary: c) (auto simp: tick_def)

lemma fold_tick2:
  "fold (\<lambda>y count. fold (\<lambda>x count. tick (P y x) count) xs count) ys c
     = c + length (filter (\<lambda>(y, x). P y x) (List.product ys xs))"
proof -
  have "fold (\<lambda>y count. fold (\<lambda>x count. tick (P y x) count) xs count) ys c
      = fold (\<lambda>(y, x) count. tick (P y x) count) (List.product ys xs) c"
    by (rule fold_product)
  also have "(\<lambda>(y, x) count. tick (P y x) count) = (\<lambda>p count. tick ((\<lambda>(y, x). P y x) p) count)"
    by (auto simp: fun_eq_iff)
  finally show ?thesis by (simp add: fold_tick)
qed

lemma rdU_zeros: "rdU (replicate n 0) i = (if i < n then Some 0 else None)"
  by (simp add: rdU_def)

lemma above_zeros: "0 < t \<Longrightarrow> above (rdU (replicate n 0) i) t = False"
  by (simp add: rdU_zeros above_def)

lemma absdiff_zeros: "\<not> jgt (absdiff (rdU (replicate n 0) i) (rdU (replicate n 0) j)) (Some 100)"
  by (simp add: rdU_zeros absdiff_def num_def)

lemma gridCount_zeros: "gridCount (replicate n 0) w h = 0"
  unfolding gridCount_def by (simp add: fold_tick2 above_zeros)

lemma brightCount_zeros: "brightCount (replicate n 0) = 0"
  unfolding brightCount_def by (simp add: fold_tick above_zeros)

lemma crossCount_zeros: "crossCount (replicate n 0) w h = 0"
proof -
  have "fold (\<lambda>i count. count) xs c = c" for xs :: "nat list" and c :: nat
    by (induction xs) auto
  then show ?thesis unfolding crossCount_def by (simp add: above_zeros tick_def)
qed

lemma checkerCount_zeros: "checkerCount (replicate n 0) w h = 0"
  unfolding checkerCount_def by (simp add: fold_tick2 checkerAt_def absdiff_zeros)

lemma smoothAt_zeros:
  assumes "1 \<le> y" "y + 1 < h" "1 \<le> x" "x + 1 < w"
  shows "smoothAt (replicate (w * h) 0) w y x"
proof -
  have "y * w + x < w * h" using assms by (intro cell_less) simp_all
  moreover have "(y - 1) * w + x < w * h" using assms by (intro cell_less) simp_all
  moreover have "(y + 1) * w + x < w * h" using assms by (intro cell_less) simp_all
  moreover have "y * w + (x - 1) < w * h" using assms by (intro cell_less) simp_all
  moreover have "y * w + (x + 1) < w * h" using assms by (intro cell_less) simp_all
  ultimately show ?thesis
    unfolding smoothAt_def Let_def by (simp add: rdU_def absdiff_def num_def)
qed

lemma gradientSmooth_zeros:
  "gradientSmooth (replicate (w * h) 0) w h = (w - 2) * (h - 2)"
proof -
  have "filter (\<lambda>(y, x). smoothAt (replicate (w * h) 0) w y x)
          (List.product [1..<h - 1] [1..<w - 1]) = List.product [1..<h - 1] [1..<w - 1]"
    by (rule filter_True) (auto intro!: smoothAt_zeros)
  then show ?thesis
    unfolding gradientSmooth_def fold_tick2 by (simp add: mult.commute numeral_2_eq_2)
qed

lemma analyzeFFTPattern_zeros:
  assumes "0 < w" "0 < h"
  shows "analyzeFFTPattern (replicate (w * h) (Some 0)) w h =
     \<lparr> gridPattern = Some 0, brightDots = Some 0, crossShape = Some 0, checkerboard = Some 0,
       smoothGradient = Some (real ((w - 2) * (h - 2)) / real (w * h)) \<rparr>"
  using assms
  by (simp add: analyzeFFTPattern_def normalize_constant gridCount_zeros brightCount_zeros
      crossCount_zeros checkerCount_zeros gradientSmooth_zeros)

lemma analyzeFFTPattern_zeros_256:
  "analyzeFFTPattern (replicate 65536 (Some 0)) 256 256 =
     \<lparr> gridPattern = Some 0, brightDots = Some 0, crossShape = Some 0, checkerboard = Some 0,
       smoothGradient = Some (64516 / 65536) \<rparr>"
  using analyzeFFTPattern_zeros[of 256 256] by simp

text \<open>
  Claim C1 fails as stated. On the all-zero \<open>256 \<times> 256\<close> spectrum the smooth-gradient
  score is not 0, and the confidence of the decision on this one classification is not 0.
\<close>

theorem zero_spectrum_not_all_zero:
  "smoothGradient (analyzeFFTPattern (replicate 65536 (Some 0)) 256 256) \<noteq> Some 0
   \<and> confidence (detectAIPatterns
         [\<lparr> magnitude = replicate 65536 (Some 0), width = 256, height = 256 \<rparr>]) \<noteq> Some 0"
  by (simp add: analyzeFFTPattern_zeros_256 detectAIPatterns_def accumulate_def average_def decide_def Let_def)

text \<open>
  Claim C1, amended. On the all-zero \<open>256 \<times> 256\<close> spectrum the classifier yields
  \<open>gridPattern = brightDots = crossShape = checkerboard = 0\<close> and
  \<open>smoothGradient = 254\<^sup>2 / 256\<^sup>2 = 64516 / 65536\<close>: every interior point has average
  difference 0 to its neighbours and is counted smooth. The decision on this single
  classification is \<open>isAI = False\<close> with confidence \<open>64516 / 65536 \<cdot> 100\<close>, about 98.44.
\<close>

theorem zero_spectrum_scores:
  "analyzeFFTPattern (replicate 65536 (Some 0)) 256 256 =
     \<lparr> gridPattern = Some 0, brightDots = Some 0, crossShape = Some 0, checkerboard = Some 0,
       smoothGradient = Some (64516 / 65536) \<rparr>
   \<and> isAI (detectAIPatterns
         [\<lparr> magnitude = replicate 65536 (Some 0), width = 256, height = 256 \<rparr>]) = False
   \<and> confidence (detectAIPatterns
         [\<lparr> magnitude = replicate 65536 (Some 0), width = 256, height = 256 \<rparr>])
       = Some (64516 / 65536 * 100)
   \<and> patterns (detectAIPatterns
         [\<lparr> magnitude = replicate 65536 (Some 0), width = 256, height = 256 \<rparr>])
       = analyzeFFTPattern (replicate 65536 (Some 0)) 256 256"
  by (simp add: analyzeFFTPattern_zeros_256 detectAIPatterns_def accumulate_def average_def decide_def Let_def)


section \<open>The checkerboard score\<close>

lemma checkerAt_plain:
  assumes "length n = w * h" "y < h - 1" "x < w - 1"
  shows "checkerAt n w y x \<longleftrightarrow>
     100 < \<bar>real (n ! (y * w + x)) - real (n ! (y * w + (x + 1)))\<bar>
     \<or> 100 < \<bar>real (n ! (y * w + x)) - real (n ! ((y + 1) * w + x))\<bar>"
proof -
  have "y * w + x < w * h" using assms by (intro cell_less) simp_all
  moreover have "y * w + (x + 1) < w * h" using assms by (intro cell_less) simp_all
  moreover have "(y + 1) * w + x < w * h" using assms by (intro cell_less) simp_all
  ultimately show ?thesis
    unfolding checkerAt_def Let_def using assms(1) by (simp add: rdU_def absdiff_def num_def)
qed

lemma checkerCount_card:
  assumes "length n = w * h"
  shows "checkerCount n w h =
     card {(y, x). y < h - 1 \<and> x < w - 1 \<and>
        (100 < \<bar>real (n ! (y * w + x)) - real (n ! (y * w + (x + 1)))\<bar>
         \<or> 100 < \<bar>real (n ! (y * w + x)) - real (n ! ((y + 1) * w + x))\<bar>)}"
proof -
  let ?ps = "List.product [0..<h - 1] [0..<w - 1]"
  have "checkerCount n w h = length (filter (\<lambda>(y, x). checkerAt n w y x) ?ps)"
    unfolding checkerCount_def fold_tick2 by simp
  also have "\<dots> = card ({p. (\<lambda>(y, x). checkerAt n w y x) p} \<inter> set ?ps)"
    by (rule distinct_length_filter) (simp add: distinct_product)
  also have "{p. (\<lambda>(y, x). checkerAt n w y x) p} \<inter> set ?ps =
     {(y, x). y < h - 1 \<and> x < w - 1 \<and>
        (100 < \<bar>real (n ! (y * w + x)) - real (n ! (y * w + (x + 1)))\<bar>
         \<or> 100 < \<bar>real (n ! (y * w + x)) - real (n ! ((y + 1) * w + x))\<bar>)}"
    using checkerAt_plain[OF assms] by auto
  finally show ?thesis .
qed

text \<open>
  Claim C5, amended. For every \<open>w \<times> h\<close> spectrum (\<open>w, h > 0\<close>), the checkerboard score
  is the number of pixels \<open>(x, y)\<close> with \<open>x < w - 1\<close> and \<open>y < h - 1\<close> whose normalized
  value differs by more than 100 from that of the right neighbour or from that of the down
  neighbour, each such pixel counted once, divided by \<open>w \<cdot> h\<close> and clamped to at most 1.
\<close>

theorem checkerboard_counts_pixels:
  assumes "length m = w * h" "0 < w" "0 < h"
  shows "checkerboard (analyzeFFTPattern m w h) =
     Some (min (real (card {(y, x). y < h - 1 \<and> x < w - 1 \<and>
        (100 < \<bar>real (normalize m ! (y * w + x)) - real (normalize m ! (y * w + (x + 1)))\<bar>
         \<or> 100 < \<bar>real (normalize m ! (y * w + x)) - real (normalize m ! ((y + 1) * w + x))\<bar>)})
       / real (w * h)) 1)"
proof -
  have "length (normalize m) = w * h" using assms(1) by (simp add: normalize_length)
  from checkerCount_card[OF this] assms(2,3) show ?thesis
    by (simp add: analyzeFFTPattern_def Let_def)
qed

lemma norm4: "normalize [Some 0, Some 255, Some 255, Some 0] = [0, 255, 255, 0]"
  by (simp add: normalize_def normalizeValues_def normalizeValue_def fsub_def fmul_def fdiv_def
      b64_0 b64_1 b64_255 toUint8Clamped_def Let_def)

text \<open>
  Claim C5 fails as stated. On the \<open>2 \<times> 2\<close> spectrum \<open>0, 255 / 255, 0\<close> the loop counts 1,
  for the one pixel it visits, whose right and down differences both exceed 100; the four
  adjacent pairs all differ by 255. The score is \<open>1/4\<close>, not the pair count over
  \<open>w \<cdot> h\<close>.
\<close>

theorem checkerboard_not_pairs:
  "checkerCount (normalize [Some 0, Some 255, Some 255, Some 0]) 2 2 = 1
   \<and> checkerPairs_spec (normalize [Some 0, Some 255, Some 255, Some 0]) 2 2 = 4
   \<and> checkerboard (analyzeFFTPattern [Some 0, Some 255, Some 255, Some 0] 2 2) = Some (1 / 4)
   \<and> checkerboard (analyzeFFTPattern [Some 0, Some 255, Some 255, Some 0] 2 2)
       \<noteq> Some (min (real (checkerPairs_spec (normalize [Some 0, Some 255, Some 255, Some 0]) 2 2)
                   / real (2 * 2)) 1)"
  by (simp add: analyzeFFTPattern_def Let_def norm4 checkerCount_def checkerPairs_spec_def checkerAt_def
      rdU_def absdiff_def num_def tick_def upt_conv_Cons)

theorem checkerboard_counts_pixels_witness:
  "length [Some 0, Some 255, Some 255, Some (0::real)] = 2 * 2 \<and> (0::nat) < 2
   \<and> checkerboard (analyzeFFTPattern [Some 0, Some 255, Some 255, Some 0] 2 2) = Some (1 / 4)
   \<and> card {(y, x). y < (2::nat) - 1 \<and> x < (2::nat) - 1 \<and>
        (100 < \<bar>real (normalize [Some 0, Some 255, Some 255, Some 0] ! (y * 2 + x)) - real (normalize [Some 0, Some 255, Some 255, Some 0] ! (y * 2 + (x + 1)))\<bar>
         \<or> 100 < \<bar>real (normalize [Some 0, Some 255, Some 255, Some 0] ! (y * 2 + x)) - real (normalize [Some 0, Some 255, Some 255, Some 0] ! ((y + 1) * 2 + x))\<bar>)} = 1"
  using checkerboard_counts_pixels[of "[Some 0, Some 255, Some 255, Some 0]" 2 2]
  apply (simp add: analyzeFFTPattern_def Let_def norm4 checkerCount_def checkerAt_def
      rdU_def absdiff_def num_def tick_def upt_conv_Cons)
  done


section \<open>FFTAnalyzer.fft1D on the impulse\<close>

text \<open>The shifts on powers of two below \<open>2\<^sup>3\<^sup>1\<close>.\<close>

lemma toInt32_id: "0 \<le> x \<Longrightarrow> x < 2 ^ 31 \<Longrightarrow> toInt32 x = x"
  by (simp add: toInt32_def)

lemma pow2_int_le: "a \<le> b \<Longrightarrow> (2::int) ^ a \<le> 2 ^ b"
  by simp

lemma shr1_pow:
  assumes "1 \<le> a" "a \<le> 30"
  shows "shr1 (2 ^ a) = 2 ^ (a - 1)"
proof -
  have "(2::int) ^ a \<le> 2 ^ 30" using assms(2) by (rule pow2_int_le)
  then have "toInt32 (2 ^ a) = 2 ^ a" by (intro toInt32_id) simp_all
  moreover obtain b where "a = Suc b" using assms(1) by (cases a) auto
  ultimately show ?thesis by (simp add: shr1_def)
qed

lemma shl1_pow:
  assumes "a \<le> 29"
  shows "shl1 (2 ^ a) = 2 ^ (a + 1)"
proof -
  have le: "(2::int) ^ a \<le> 2 ^ 29" using assms by (rule pow2_int_le)
  then have "toInt32 (2 ^ a) = 2 ^ a" by (intro toInt32_id) simp_all
  moreover have "toInt32 (2 ^ a * 2) = 2 ^ a * 2" using le by (intro toInt32_id) simp_all
  ultimately show ?thesis by (simp add: shl1_def)
qed

lemma shl1_pow30: "shl1 (2 ^ 30) = - (2 ^ 31)"
  by (simp add: shl1_def toInt32_def)

text \<open>
  The inner loop of the bit reversal, started at \<open>k = n / 2\<close> on the reversal of \<open>i\<close>,
  ends, and leaves in \<open>j + k\<close> the reversal of \<open>i + 1\<close>.
\<close>

lemma bitrev_less: "bitrev m i < 2 ^ m"
proof (induction m arbitrary: i)
  case 0
  then show ?case by simp
next
  case (Suc m)
  have "i mod 2 \<le> 1" by simp
  then have a: "2 ^ m * (i mod 2) \<le> (2::nat) ^ m" by (cases "i mod 2 = 0") auto
  have b: "bitrev m (i div 2) < 2 ^ m" by (rule Suc)
  have "2 ^ m * (i mod 2) + bitrev m (i div 2) < 2 ^ m + 2 ^ m" using a b by linarith
  then show ?case by simp
qed

lemma bitrev_zero: "bitrev m 0 = 0"
  by (induction m) auto

lemma bitrev_while_exit: "j < k \<Longrightarrow> bitrev_while k j = Some (k, j)"
  by (subst bitrev_while.simps) simp

lemma bitrev_while_next:
  assumes "m \<le> 30" "Suc i < 2 ^ m"
  shows "\<exists>k j. bitrev_while (2 ^ (m - 1)) (int (bitrev m i)) = Some (k, j)
           \<and> j + k = int (bitrev m (Suc i))"
  using assms
proof (induction m arbitrary: i)
  case 0
  then show ?case by simp
next
  case (Suc m)
  show ?case
  proof (cases "even i")
    case True
    then have r: "bitrev (Suc m) i = bitrev m (i div 2)"
      and s: "bitrev (Suc m) (Suc i) = 2 ^ m + bitrev m (i div 2)"
      by (simp_all add: even_iff_mod_2_eq_zero mod_Suc)
    have "int (bitrev m (i div 2)) < 2 ^ m" using bitrev_less[of m "i div 2"]
      by (metis of_nat_less_iff of_nat_numeral of_nat_power)
    then have "bitrev_while (2 ^ m) (int (bitrev m (i div 2))) = Some (2 ^ m, int (bitrev m (i div 2)))"
      by (rule bitrev_while_exit)
    then show ?thesis by (simp add: r s del: bitrev.simps)
  next
    case False
    then have r: "bitrev (Suc m) i = 2 ^ m + bitrev m (i div 2)"
      and s: "bitrev (Suc m) (Suc i) = bitrev m (Suc (i div 2))"
      by (simp_all add: odd_iff_mod_2_eq_one mod_Suc)
    from False Suc.prems(2) have m1: "1 \<le> m" by (cases m) (auto elim: oddE)
    have half: "Suc (i div 2) < 2 ^ m" using False Suc.prems(2) by (auto elim!: oddE)
    from Suc.IH[OF _ half] Suc.prems(1) obtain k j where
      kj: "bitrev_while (2 ^ (m - 1)) (int (bitrev m (i div 2))) = Some (k, j)"
        "j + k = int (bitrev m (Suc (i div 2)))" by auto
    have "bitrev_while (2 ^ m) (int (2 ^ m + bitrev m (i div 2)))
        = bitrev_while (shr1 (2 ^ m)) (int (bitrev m (i div 2)))"
      by (subst bitrev_while.simps) simp
    also have "shr1 (2 ^ m) = 2 ^ (m - 1)" using m1 Suc.prems(1) by (intro shr1_pow) simp_all
    finally show ?thesis using kj by (simp add: r s del: bitrev.simps)
  qed
qed

text \<open>Arrays of ones followed by zeros, read and written.\<close>

lemma length_ones: "length (ones a n) = n"
  by (simp add: ones_def)

lemma nth_ones: "i < n \<Longrightarrow> ones a n ! i = Some (if i < a then 1 else 0)"
  by (simp add: ones_def)

lemma rdI_ones:
  "i < n \<Longrightarrow> rdI (ones a n) (int i) = Some (if i < a then 1 else 0)"
  by (simp add: rdI_def length_ones nth_ones)

lemma wrI_same: "i < length xs \<Longrightarrow> xs ! i = v \<Longrightarrow> wrI xs (int i) v = xs"
  by (auto simp: wrI_def)

lemma wrI_ones_same:
  "i < n \<Longrightarrow> wrI (ones a n) (int i) (Some (if i < a then 1 else 0)) = ones a n"
  by (rule wrI_same) (simp_all add: length_ones nth_ones)

lemma wrI_ones_grow: "a < n \<Longrightarrow> wrI (ones a n) (int a) (Some 1) = ones (Suc a) n"
  by (rule nth_equalityI) (auto simp: wrI_def length_ones nth_ones nth_list_update)

lemma swap_ones:
  assumes "1 \<le> a" "a \<le> i" "i < n" "a \<le> j" "j < n"
  shows "swap (ones a n) (int i) (int j) = ones a n"
proof -
  have "rdI (ones a n) (int j) = Some 0" "rdI (ones a n) (int i) = Some 0"
    using assms by (simp_all add: rdI_ones)
  moreover have "wrI (ones a n) (int i) (Some 0) = ones a n"
    using wrI_ones_same[of i n a] assms by simp
  moreover have "wrI (ones a n) (int j) (Some 0) = ones a n"
    using wrI_ones_same[of j n a] assms by simp
  ultimately show ?thesis by (simp add: swap_def)
qed

lemma swap_zeros:
  assumes "i < n" "j < n"
  shows "swap (ones 0 n) (int i) (int j) = ones 0 n"
proof -
  have "rdI (ones 0 n) (int j) = Some 0" "rdI (ones 0 n) (int i) = Some 0"
    using assms by (simp_all add: rdI_ones)
  moreover have "wrI (ones 0 n) (int i) (Some 0) = ones 0 n"
    using wrI_ones_same[of i n 0] assms by simp
  moreover have "wrI (ones 0 n) (int j) (Some 0) = ones 0 n"
    using wrI_ones_same[of j n 0] assms by simp
  ultimately show ?thesis by (simp add: swap_def)
qed

lemma bitrev_pos: "0 < i \<Longrightarrow> i < 2 ^ m \<Longrightarrow> 0 < bitrev m i"
proof (induction m arbitrary: i)
  case 0
  then show ?case by simp
next
  case (Suc m)
  show ?case
  proof (cases "even i")
    case True
    then have "0 < i div 2" "i div 2 < 2 ^ m" using Suc.prems by (auto elim!: evenE)
    from Suc.IH[OF this] show ?thesis by simp
  next
    case False
    then show ?thesis by (simp add: odd_iff_mod_2_eq_one)
  qed
qed

lemma bitrev_for_impulse:
  assumes m: "m \<le> 30" and N: "N = 2 ^ m" and i: "i < N"
  shows "bitrev_for (int N) (int i) (int (bitrev m i)) (ones 1 N, ones 0 N)
      = Some (ones 1 N, ones 0 N)"
  using i
proof (induction "N - Suc i" arbitrary: i)
  case 0
  then have "\<not> int i < int N - 1" by linarith
  then show ?case by (subst bitrev_for.simps) simp
next
  case (Suc d)
  then have lt: "Suc i < N" by simp
  then have c: "int i < int N - 1" by linarith
  have sw: "(if int i < int (bitrev m i) then (swap (ones 1 N) (int i) (int (bitrev m i)),
                swap (ones 0 N) (int i) (int (bitrev m i))) else (ones 1 N, ones 0 N))
      = (ones 1 N, ones 0 N)"
  proof (cases "i < bitrev m i")
    case True
    then have "0 < i" using bitrev_zero[of m] by (cases i) auto
    then have "1 \<le> i" "1 \<le> bitrev m i" using True by simp_all
    moreover have "i < N" "bitrev m i < N" using lt bitrev_less N by simp_all
    ultimately show ?thesis using True by (simp add: swap_ones swap_zeros)
  next
    case False
    then show ?thesis by simp
  qed
  from bitrev_while_next[OF m] lt N obtain k j where
    kj: "bitrev_while (2 ^ (m - 1)) (int (bitrev m i)) = Some (k, j)"
      "j + k = int (bitrev m (Suc i))" by blast
  have m1: "1 \<le> m" using lt N by (cases m) auto
  have sh: "shr1 (int N) = 2 ^ (m - 1)" unfolding N using shr1_pow[OF m1 m] by simp
  have d: "d = N - Suc (Suc i)" using Suc.hyps(2) by simp
  have "bitrev_for (int N) (int i) (int (bitrev m i)) (ones 1 N, ones 0 N)
       = bitrev_for (int N) (int i + 1) (j + k) (ones 1 N, ones 0 N)"
    by (subst bitrev_for.simps)
      (simp only: c if_True sw sh kj(1) Let_def prod.case option.case)
  also have "\<dots> = bitrev_for (int N) (int (Suc i)) (int (bitrev m (Suc i))) (ones 1 N, ones 0 N)"
    by (simp add: kj(2) add.commute)
  also have "\<dots> = Some (ones 1 N, ones 0 N)" by (rule Suc.hyps(1)[OF d lt])
  finally show ?case .
qed

text \<open>
  One butterfly whose odd entry is 0 in both arrays: the term \<open>t\<close> is 0 whatever the
  twiddle factor is, and the step copies the even entry to the odd place.
\<close>

lemma rdI_wrI_other: "i \<noteq> j \<Longrightarrow> rdI (wrI xs j v) i = rdI xs i"
  by (auto simp: rdI_def wrI_def nth_list_update)

lemma wrI_rdI_same: "rdI xs i = Some x \<Longrightarrow> wrI xs i (Some x) = xs"
proof -
  assume a: "rdI xs i = Some x"
  then have "0 \<le> i \<and> i < int (length xs)" "xs ! nat i = Some x"
    by (auto simp: rdI_def split: if_splits)
  then show ?thesis using list_update_id[of xs "nat i"] by (simp add: wrI_def)
qed

lemma rdI_wrI_same: "rdI xs i = Some a \<Longrightarrow> rdI (wrI xs i v) i = v"
  by (auto simp: rdI_def wrI_def split: if_splits)

lemma butterflies_copy_step:
  assumes j: "j < h"
    and odd: "rdI re (i + j + h) = Some 0" "rdI im (i + j + h) = Some 0"
    and even: "rdI re (i + j) = Some x" "rdI im (i + j) = Some y"
  shows "butterflies i h (Some c) (Some s) j (Some wr) (Some wi) (re, im)
     = butterflies i h (Some c) (Some s) (j + 1) (Some (wr * c - wi * s)) (Some (wr * s + wi * c))
         (wrI re (i + j + h) (Some x), wrI im (i + j + h) (Some y))"
proof -
  have re1: "rdI (wrI re (i + j + h) (Some x)) (i + j) = Some x"
  proof (cases "i + j = i + j + h")
    case True
    then show ?thesis using odd(1) by (simp add: rdI_wrI_same)
  next
    case False
    then show ?thesis using even(1) by (simp add: rdI_wrI_other)
  qed
  have im1: "rdI (wrI im (i + j + h) (Some y)) (i + j) = Some y"
  proof (cases "i + j = i + j + h")
    case True
    then show ?thesis using odd(2) by (simp add: rdI_wrI_same)
  next
    case False
    then show ?thesis using even(2) by (simp add: rdI_wrI_other)
  qed
  show ?thesis
    apply (subst butterflies.simps)
    apply (simp only: j if_True Let_def odd even jmul.simps jsub.simps jadd.simps
        mult_zero_right diff_zero add_0_right re1 im1 wrI_rdI_same[OF re1] wrI_rdI_same[OF im1])
    done
qed

lemma rdI_ones_int:
  "0 \<le> x \<Longrightarrow> x < int n \<Longrightarrow> rdI (ones a n) x = Some (if x < int a then 1 else 0)"
  using rdI_ones[of "nat x" n a] by auto

lemma butterflies_exit: "\<not> j < h \<Longrightarrow> butterflies i h c s j w w' (re, im) = (re, im)"
  by (subst butterflies.simps) simp

text \<open>A block of zeros stays as it is.\<close>

lemma butterflies_zero_block:
  assumes "a \<le> i" "i + 2 * h \<le> n" "j \<le> h"
  shows "butterflies (int i) (int h) (Some c) (Some s) (int j) (Some wr) (Some wi)
           (ones a n, ones 0 n) = (ones a n, ones 0 n)"
  using assms(3)
proof (induction "h - j" arbitrary: j wr wi)
  case 0
  then show ?case by (simp add: butterflies_exit)
next
  case (Suc d)
  then have j: "j < h" by simp
  have sj: "int j + 1 = int (Suc j)" by simp
  have e: "0 \<le> int i + int j" "int i + int j < int n" "\<not> int i + int j < int a"
    and o: "0 \<le> int i + int j + int h" "int i + int j + int h < int n"
      "\<not> int i + int j + int h < int a"
    using assms(1,2) j by linarith+
  have rd: "rdI (ones a n) (int i + int j + int h) = Some 0"
    "rdI (ones 0 n) (int i + int j + int h) = Some 0"
    "rdI (ones a n) (int i + int j) = Some 0"
    "rdI (ones 0 n) (int i + int j) = Some 0"
    using e o by (simp_all add: rdI_ones_int)
  have "butterflies (int i) (int h) (Some c) (Some s) (int j) (Some wr) (Some wi)
           (ones a n, ones 0 n)
     = butterflies (int i) (int h) (Some c) (Some s) (int j + 1)
         (Some (wr * c - wi * s)) (Some (wr * s + wi * c))
         (wrI (ones a n) (int i + int j + int h) (Some 0),
          wrI (ones 0 n) (int i + int j + int h) (Some 0))"
    by (rule butterflies_copy_step) (use j rd in simp_all)
  also have "\<dots> = butterflies (int i) (int h) (Some c) (Some s) (int (Suc j))
         (Some (wr * c - wi * s)) (Some (wr * s + wi * c)) (ones a n, ones 0 n)"
    unfolding wrI_rdI_same[OF rd(1)] wrI_rdI_same[OF rd(2)] sj ..
  also have "\<dots> = (ones a n, ones 0 n)"
    by (rule Suc.hyps(1)) (use Suc.hyps(2) j in simp_all)
  finally show ?case .
qed

text \<open>The first block: the ones in its first half are copied to its second half.\<close>

lemma butterflies_first_block:
  assumes "2 * h \<le> n" "j \<le> h"
  shows "butterflies 0 (int h) (Some c) (Some s) (int j) (Some wr) (Some wi)
           (ones (h + j) n, ones 0 n) = (ones (2 * h) n, ones 0 n)"
  using assms(2)
proof (induction "h - j" arbitrary: j wr wi)
  case 0
  then have "j = h" by simp
  then show ?case by (simp add: butterflies_exit mult_2)
next
  case (Suc d)
  then have j: "j < h" by simp
  have sj: "int j + 1 = int (Suc j)" by simp
  have rd: "rdI (ones (h + j) n) (0 + int j + int h) = Some 0"
    "rdI (ones 0 n) (0 + int j + int h) = Some 0"
    "rdI (ones (h + j) n) (0 + int j) = Some 1"
    "rdI (ones 0 n) (0 + int j) = Some 0"
    using assms(1) j by (simp_all add: rdI_ones_int)
  have g: "wrI (ones (h + j) n) (0 + int j + int h) (Some 1) = ones (h + Suc j) n"
    using wrI_ones_grow[of "h + j" n] assms(1) j by (simp add: add.commute)
  have "butterflies 0 (int h) (Some c) (Some s) (int j) (Some wr) (Some wi)
           (ones (h + j) n, ones 0 n)
     = butterflies 0 (int h) (Some c) (Some s) (int j + 1)
         (Some (wr * c - wi * s)) (Some (wr * s + wi * c))
         (wrI (ones (h + j) n) (0 + int j + int h) (Some 1),
          wrI (ones 0 n) (0 + int j + int h) (Some 0))"
    by (rule butterflies_copy_step) (use j rd in simp_all)
  also have "\<dots> = butterflies 0 (int h) (Some c) (Some s) (int (Suc j))
         (Some (wr * c - wi * s)) (Some (wr * s + wi * c)) (ones (h + Suc j) n, ones 0 n)"
    unfolding g wrI_rdI_same[OF rd(2)] sj ..
  also have "\<dots> = (ones (2 * h) n, ones 0 n)"
    by (rule Suc.hyps(1)) (use Suc.hyps(2) j in simp_all)
  finally show ?case .
qed

text \<open>The loop over the blocks of one stage, and when it does not end.\<close>

lemma blocks_exit: "\<not> i < n \<Longrightarrow> blocks n len hl c s i st = Some st"
  by (subst blocks.simps) simp

lemma blocks_zero_rest:
  assumes N: "N = B * (2 * h)" and q: "1 \<le> q" "q \<le> B"
  shows "blocks (int N) (int (2 * h)) (int h) (Some c) (Some s) (int (q * (2 * h)))
           (ones (2 * h) N, ones 0 N) = Some (ones (2 * h) N, ones 0 N)"
  using q
proof (induction "B - q" arbitrary: q)
  case 0
  then have "q = B" by simp
  then show ?case using N by (simp add: blocks_exit)
next
  case (Suc d)
  then have qB: "Suc q \<le> B" by simp
  show ?case
  proof (cases "h = 0")
    case True
    then show ?thesis using N by (simp add: blocks_exit)
  next
    case False
    have "Suc q * (2 * h) \<le> B * (2 * h)" using qB by (rule mult_le_mono1)
    then have top: "q * (2 * h) + 2 * h \<le> N" using N by simp
    then have lt: "int (q * (2 * h)) < int N" using False by linarith
    have low: "2 * h \<le> q * (2 * h)" using Suc.prems(1) by (cases q) auto
    have bf: "butterflies (int (q * (2 * h))) (int h) (Some c) (Some s) (int 0) (Some 1) (Some 0)
           (ones (2 * h) N, ones 0 N) = (ones (2 * h) N, ones 0 N)"
      by (rule butterflies_zero_block[OF low top]) simp
    have nx: "int (q * (2 * h)) + int (2 * h) = int (Suc q * (2 * h))" by simp
    have "blocks (int N) (int (2 * h)) (int h) (Some c) (Some s) (int (q * (2 * h)))
           (ones (2 * h) N, ones 0 N)
        = blocks (int N) (int (2 * h)) (int h) (Some c) (Some s) (int (Suc q * (2 * h)))
           (ones (2 * h) N, ones 0 N)"
      apply (subst blocks.simps)
      apply (simp only: lt if_True bf[simplified of_nat_0] nx)
      done
    also have "\<dots> = Some (ones (2 * h) N, ones 0 N)"
      by (rule Suc.hyps(1)) (use Suc.hyps(2) qB in simp_all)
    finally show ?thesis .
  qed
qed

lemma blocks_all:
  assumes N: "N = B * (2 * h)" and B: "1 \<le> B" and h: "0 < h"
  shows "blocks (int N) (int (2 * h)) (int h) (Some c) (Some s) 0 (ones h N, ones 0 N)
       = Some (ones (2 * h) N, ones 0 N)"
proof -
  have le: "2 * h \<le> N" using N B by (cases B) auto
  then have lt: "(0::int) < int N" using h by linarith
  have bf: "butterflies 0 (int h) (Some c) (Some s) (int 0) (Some 1) (Some 0)
           (ones (h + 0) N, ones 0 N) = (ones (2 * h) N, ones 0 N)"
    by (rule butterflies_first_block[OF le]) simp
  have nx: "0 + int (2 * h) = int (1 * (2 * h))" by simp
  have "blocks (int N) (int (2 * h)) (int h) (Some c) (Some s) 0 (ones h N, ones 0 N)
      = blocks (int N) (int (2 * h)) (int h) (Some c) (Some s) (int (1 * (2 * h)))
          (ones (2 * h) N, ones 0 N)"
    apply (subst blocks.simps)
    apply (simp only: lt if_True bf[simplified of_nat_0 add_0_right] nx)
    done
  also have "\<dots> = Some (ones (2 * h) N, ones 0 N)"
    by (rule blocks_zero_rest[OF N _ B]) simp
  finally show ?thesis .
qed

lemma blocks_diverge:
  assumes "len \<le> 0" "i < n"
  shows "blocks n len hl c s i st = None"
proof -
  have "False" if "blocks n len hl c s i st = Some y" for y
    using that assms
  proof (induction n len hl c s i st y rule: blocks.raw_induct[rotated 1, consumes 1])
    case (1 blocks' n len hl c s i st y)
    from 1(2) 1(3,4) have "blocks' n len hl c s (i + len)
        (butterflies i hl c s 0 (Some 1) (Some 0) st) = Some y" by simp
    from 1(1)[OF this] 1(3,4) show ?case by simp
  qed
  then show ?thesis by (cases "blocks n len hl c s i st") auto
qed

text \<open>The loop over the stages, on the impulse.\<close>

lemma stages_exit: "\<not> len \<le> n \<Longrightarrow> stages n len st = Some st"
  by (subst stages.simps) simp

lemma stages_step:
  assumes N: "N = 2 ^ k" and m: "1 \<le> m" "m \<le> k" and k: "k \<le> 30"
  shows "stages (int N) (2 ^ m) (ones (2 ^ (m - 1)) N, ones 0 N)
       = stages (int N) (shl1 (2 ^ m)) (ones (2 ^ m) N, ones 0 N)"
proof -
  define h :: nat where "h = 2 ^ (m - 1)"
  define B :: nat where "B = 2 ^ (k - m)"
  have h2: "2 * h = 2 ^ m" using m(1) unfolding h_def by (cases m) auto
  have NB: "N = B * (2 * h)" unfolding h2 B_def N using m(2) by (simp flip: power_add)
  have ih: "int (2 * h) = 2 ^ m" unfolding h2 by simp
  have le: "(2::int) ^ m \<le> int N" unfolding N using m(2) by simp
  have sh: "shr1 (2 ^ m) = int h" using shr1_pow[of m] m k unfolding h_def by simp
  have ne: "(2::int) ^ m \<noteq> 0" by simp
  have bl: "blocks (int N) (2 ^ m) (int h) (Some (cos (- 2 * pi / real_of_int (2 ^ m))))
       (Some (sin (- 2 * pi / real_of_int (2 ^ m)))) 0 (ones h N, ones 0 N)
       = Some (ones (2 ^ m) N, ones 0 N)"
    using blocks_all[OF NB, of "cos (- 2 * pi / real_of_int (2 ^ m))"
        "sin (- 2 * pi / real_of_int (2 ^ m))"]
    unfolding ih h2 by (simp add: B_def h_def)
  show ?thesis
    apply (subst stages.simps)
    apply (simp only: le if_True sh cosAngle_def sinAngle_def ne if_False)
    apply (simp only: flip: h_def)
    apply (simp only: bl Option.bind.simps)
    done
qed

lemma stages_impulse:
  assumes N: "N = 2 ^ k" and k: "k \<le> 29" and m: "1 \<le> m" "m \<le> k + 1"
  shows "stages (int N) (2 ^ m) (ones (2 ^ (m - 1)) N, ones 0 N) = Some (ones N N, ones 0 N)"
  using m
proof (induction "k + 1 - m" arbitrary: m)
  case 0
  then have mk: "m = k + 1" by simp
  then have "\<not> (2::int) ^ m \<le> int N" unfolding N by simp
  then show ?case using mk N by (simp add: stages_exit)
next
  case (Suc d)
  then have mk: "m \<le> k" by simp
  have "shl1 (2 ^ m) = 2 ^ (m + 1)" using mk k by (intro shl1_pow) simp
  with stages_step[OF N Suc.prems(1) mk] k
  have "stages (int N) (2 ^ m) (ones (2 ^ (m - 1)) N, ones 0 N)
       = stages (int N) (2 ^ (m + 1)) (ones (2 ^ (m + 1 - 1)) N, ones 0 N)" by simp
  also have "\<dots> = Some (ones N N, ones 0 N)"
    by (rule Suc.hyps(1)) (use Suc.hyps(2) mk in simp_all)
  finally show ?case .
qed

lemma stages_overflow:
  assumes N: "N = 2 ^ 30" and m: "1 \<le> m" "m \<le> 30"
  shows "stages (int N) (2 ^ m) (ones (2 ^ (m - 1)) N, ones 0 N) = None"
  using m
proof (induction "30 - m" arbitrary: m)
  case 0
  then have m30: "m = 30" by simp
  have "stages (int N) (2 ^ 30) (ones (2 ^ (30 - 1)) N, ones 0 N)
       = stages (int N) (shl1 (2 ^ 30)) (ones (2 ^ 30) N, ones 0 N)"
    by (rule stages_step[OF N]) simp_all
  also have "\<dots> = None"
    unfolding shl1_pow30
    apply (subst stages.simps)
    apply (simp add: N blocks_diverge)
    done
  finally show ?case unfolding m30 .
next
  case (Suc d)
  then have mk: "m \<le> 29" by simp
  have "shl1 (2 ^ m) = 2 ^ (m + 1)" using mk by (intro shl1_pow) simp
  with stages_step[OF N Suc.prems(1), of ] mk
  have "stages (int N) (2 ^ m) (ones (2 ^ (m - 1)) N, ones 0 N)
       = stages (int N) (2 ^ (m + 1)) (ones (2 ^ (m + 1 - 1)) N, ones 0 N)" by simp
  also have "\<dots> = None"
    by (rule Suc.hyps(1)) (use Suc.hyps(2) mk in simp_all)
  finally show ?case .
qed

lemma fft1D_impulse_ones:
  assumes N: "N = 2 ^ k" and k: "k \<le> 29"
  shows "fft1D (ones 1 N) (ones 0 N) = Some (Inr (ones N N, ones 0 N))"
proof (cases k)
  case 0
  then have "N = 1" using N by simp
  then show ?thesis by (simp add: fft1D_def length_ones)
next
  case (Suc k')
  have "(1::nat) \<le> 2 ^ k'" by simp
  then have "2 \<le> N" unfolding N Suc by simp
  then have big: "\<not> int N \<le> 1" by linarith
  have "bitrev_for (int N) (int 0) (int (bitrev k 0)) (ones 1 N, ones 0 N)
      = Some (ones 1 N, ones 0 N)"
    by (rule bitrev_for_impulse[OF _ N]) (use k N in simp_all)
  then have br: "bitrev_for (int N) 0 0 (ones 1 N, ones 0 N) = Some (ones 1 N, ones 0 N)"
    by (simp only: bitrev_zero of_nat_0)
  have "stages (int N) (2 ^ 1) (ones (2 ^ (1 - 1)) N, ones 0 N) = Some (ones N N, ones 0 N)"
    by (rule stages_impulse[OF N k]) (use Suc in simp_all)
  then have st: "stages (int N) 2 (ones 1 N, ones 0 N) = Some (ones N N, ones 0 N)"
    by (simp only: power_one_right diff_self_eq_0 power_0)
  show ?thesis
    unfolding fft1D_def Let_def length_ones
    by (simp only: big if_False br st Option.bind.simps option.map)
qed

lemma fft1D_impulse_overflow:
  assumes N: "N = 2 ^ 30"
  shows "fft1D (ones 1 N) (ones 0 N) = None"
proof -
  have big: "\<not> int N \<le> 1" unfolding N by simp
  have "bitrev_for (int N) (int 0) (int (bitrev 30 0)) (ones 1 N, ones 0 N)
      = Some (ones 1 N, ones 0 N)"
    by (rule bitrev_for_impulse[OF _ N]) (use N in simp_all)
  then have br: "bitrev_for (int N) 0 0 (ones 1 N, ones 0 N) = Some (ones 1 N, ones 0 N)"
    by (simp only: bitrev_zero of_nat_0)
  have "stages (int N) (2 ^ 1) (ones (2 ^ (1 - 1)) N, ones 0 N) = None"
    by (rule stages_overflow[OF N]) simp_all
  then have st: "stages (int N) 2 (ones 1 N, ones 0 N) = None"
    by (simp only: power_one_right diff_self_eq_0 power_0)
  show ?thesis
    unfolding fft1D_def Let_def length_ones
    by (simp only: big if_False br st Option.bind.simps option.map)
qed

lemma ones_impulse: "0 < N \<Longrightarrow> ones 1 N = Some 1 # replicate (N - 1) (Some 0)"
  by (rule nth_equalityI) (auto simp: length_ones nth_ones nth_Cons')

lemma ones_zero: "ones 0 N = replicate N (Some 0)"
  by (rule nth_equalityI) (auto simp: length_ones nth_ones)

lemma ones_all: "ones N N = replicate N (Some 1)"
  by (rule nth_equalityI) (auto simp: length_ones nth_ones)

lemma magnitude_flat:
  "calculateMagnitude (replicate N (Some 1)) (replicate N (Some 0)) = replicate N (Some 1)"
  by (rule nth_equalityI) (auto simp: calculateMagnitude_def rd_def)

text \<open>
  Claim C9, amended. For every power-of-two length \<open>n = 2\<^sup>k\<close> with \<open>k \<le> 29\<close>, \<^verbatim>\<open>fft1D\<close>
  applied to the impulse (\<open>real[0] = 1\<close>, every other real entry 0, every imaginary
  entry 0) returns, over exact real arithmetic, with every real entry 1 and every imaginary
  entry 0: the magnitude \<open>sqrt (real[k]\<^sup>2 + imag[k]\<^sup>2)\<close> is 1 at every index.
\<close>

theorem fft1D_impulse_flat:
  "k \<le> 29 \<Longrightarrow>
   fft1D (Some 1 # replicate (2 ^ k - 1) (Some 0)) (replicate (2 ^ k) (Some 0))
     = Some (Inr (replicate (2 ^ k) (Some 1), replicate (2 ^ k) (Some 0)))
   \<and> calculateMagnitude (replicate (2 ^ k) (Some 1)) (replicate (2 ^ k) (Some 0))
     = replicate (2 ^ k) (Some 1)"
proof
  assume k: "k \<le> 29"
  have pos: "(0::nat) < 2 ^ k" by simp
  show "fft1D (Some 1 # replicate (2 ^ k - 1) (Some 0)) (replicate (2 ^ k) (Some 0))
     = Some (Inr (replicate (2 ^ k) (Some 1), replicate (2 ^ k) (Some 0)))"
    using fft1D_impulse_ones[OF refl k] unfolding ones_impulse[OF pos] ones_zero ones_all .
next
  show "calculateMagnitude (replicate (2 ^ k) (Some 1)) (replicate (2 ^ k) (Some 0))
     = replicate (2 ^ k) (Some 1)"
    by (rule magnitude_flat)
qed

text \<open>
  Claim C9 fails as stated: at the power-of-two length \<open>2\<^sup>3\<^sup>0\<close> the call does not
  return. After the stage \<open>len = 2\<^sup>3\<^sup>0\<close> the shift \<^verbatim>\<open>len <<= 1\<close> wraps to \<open>- 2\<^sup>3\<^sup>1\<close> in
  32 bits, the test \<^verbatim>\<open>len <= n\<close> still holds, and the loop over the blocks steps
  \<open>i\<close> downwards from 0 for ever.
\<close>

theorem fft1D_impulse_two_pow_30:
  "fft1D (Some 1 # replicate (2 ^ 30 - 1) (Some 0)) (replicate (2 ^ 30) (Some 0)) = None"
proof -
  have pos: "(0::nat) < 2 ^ 30" by simp
  show ?thesis
    using fft1D_impulse_overflow[OF refl] unfolding ones_impulse[OF pos] ones_zero .
qed

theorem fft1D_impulse_flat_witness:
  "(2::nat) \<le> 29
   \<and> fft1D [Some 1, Some 0, Some 0, Some 0] [Some 0, Some 0, Some 0, Some 0]
       = Some (Inr ([Some 1, Some 1, Some 1, Some 1], [Some 0, Some 0, Some 0, Some 0]))
   \<and> calculateMagnitude [Some 1, Some 1, Some 1, Some 1] [Some 0, Some 0, Some 0, Some 0]
       = [Some 1, Some 1, Some 1, Some 1]"
  using fft1D_impulse_flat[of 2] by (simp add: numeral_eq_Suc)

lemma bitrev_while_stuck:
  assumes "0 \<le> j"
  shows "bitrev_while 0 j = None"
proof -
  have "False" if "bitrev_while k j = Some y" "k = 0" "0 \<le> j" for k y
    using that
  proof (induction k j y rule: bitrev_while.raw_induct[rotated 1, consumes 1])
    case (1 bitrev_while' k j y)
    from 1(2) 1(3,4) have "bitrev_while' (shr1 0) (j - 0) = Some y" by simp
    then have "bitrev_while' 0 j = Some y" by (simp add: shr1_def toInt32_def)
    from 1(1)[OF this] 1(4) show ?case by simp
  qed
  then show ?thesis using assms by (cases "bitrev_while 0 j") auto
qed

lemma fft1D_three: "fft1D [a, b, c] [x, y, z] = None"
proof -
  have s3: "shr1 3 = 1" and s1: "shr1 1 = 0" by (simp_all add: shr1_def toInt32_def)
  have w0: "bitrev_while 1 0 = Some (1, 0)" by (rule bitrev_while_exit) simp
  have "bitrev_while 1 1 = bitrev_while (shr1 1) (1 - 1)" by (subst bitrev_while.simps) simp
  then have w1: "bitrev_while 1 1 = None" by (simp add: s1 bitrev_while_stuck)
  have "bitrev_for 3 0 0 ([a, b, c], [x, y, z]) = bitrev_for 3 1 1 ([a, b, c], [x, y, z])"
    by (subst bitrev_for.simps) (simp add: s3 w0)
  also have "\<dots> = None"
    by (subst bitrev_for.simps) (simp add: s3 w1)
  finally show ?thesis by (simp add: fft1D_def)
qed

text \<open>
  Claim C3, amended. \<^verbatim>\<open>fft1D\<close> has no precondition check: no input makes it fail with
  \<open>InvalidLength\<close> (or with any error), and on arrays of length 0, as on arrays of
  length 1, it returns at once and leaves the arrays as they are.
\<close>

theorem fft1D_no_precondition:
  "fft1D re im \<noteq> Some (Inl e)
   \<and> (length re \<le> 1 \<longrightarrow> fft1D re im = Some (Inr (re, im)))"
  by (auto simp: fft1D_def Let_def)

theorem fft1D_no_precondition_witness:
  "length ([] :: jsnum list) \<le> 1 \<and> fft1D [] [] = Some (Inr ([], []))
   \<and> fft1D [] [] \<noteq> Some (Inl InvalidLength)"
  using fft1D_no_precondition[of "[]" "[]" InvalidLength] by simp

text \<open>
  Claim C3 fails as stated. On the empty arrays (\<open>n = 0\<close>) the call returns normally; on
  arrays of length 3, not a power of two, it is not rejected either: the bit-reversal loop
  reaches \<open>k = 0\<close> and the call never returns.
\<close>

theorem fft1D_accepts_invalid_length:
  "fft1D [] [] = Some (Inr ([], []))
   \<and> fft1D [] [] \<noteq> Some (Inl InvalidLength)
   \<and> fft1D [Some 1, Some 2, Some 3] [Some 0, Some 0, Some 0] = None
   \<and> fft1D [Some 1, Some 2, Some 3] [Some 0, Some 0, Some 0] \<noteq> Some (Inl InvalidLength)"
  by (simp add: fft1D_three) (simp add: fft1D_def)

end
